theory Spec2Isabelle
  imports Main
begin

section \<open>Regular expressions as the program uses them\<close>

text \<open>
  The extension (\<^verbatim>\<open>src/src/x-ten.js\<close>) does all of its text analysis with JavaScript
  regular expressions. Every pattern in the file is a plain sequence of single-character
  atoms, some of them starred, with at most one capture group and the anchors \<^verbatim>\<open>^\<close> and
  \<^verbatim>\<open>$\<close>; none carries the \<^verbatim>\<open>m\<close>, \<^verbatim>\<open>i\<close> or \<^verbatim>\<open>u\<close> flag. The matcher below
  is the backtracking matcher of the language restricted to such patterns: a greedy star
  tries the longest run first and gives characters back one at a time, a lazy star tries
  the shortest run first, \<^verbatim>\<open>$\<close> holds at the end of the input only.

  A line of text is a \<^typ>\<open>string\<close>; its characters are the code units below 256.
\<close>

definition dquote :: char where "dquote = CHR 0x22"
definition squote :: char where "squote = CHR 0x27"
definition bquote :: char where "bquote = CHR 0x60"

definition lower_chars :: string where "lower_chars = ''abcdefghijklmnopqrstuvwxyz''"
definition upper_chars :: string where "upper_chars = ''ABCDEFGHIJKLMNOPQRSTUVWXYZ''"
definition digit_chars :: string where "digit_chars = ''0123456789''"

text \<open>\<^verbatim>\<open>\s\<close>: tab, line feed, vertical tab, form feed, carriage return, space, no-break space.\<close>

definition space_chars :: string where
  "space_chars = [CHR 0x09, CHR 0x0A, CHR 0x0B, CHR 0x0C, CHR 0x0D, CHR 0x20, CHR 0xA0]"

datatype cclass =
    Ch char          \<comment> \<open>a literal character\<close>
  | NotCh char       \<comment> \<open>\<^verbatim>\<open>[^c]\<close>\<close>
  | Space            \<comment> \<open>\<^verbatim>\<open>\s\<close>\<close>
  | Dot              \<comment> \<open>\<^verbatim>\<open>.\<close>: anything but a line terminator\<close>
  | RobotStart       \<comment> \<open>\<^verbatim>\<open>[a-zA-Z_]\<close>\<close>
  | RobotRest        \<comment> \<open>\<^verbatim>\<open>[a-zA-Z0-9_]\<close>\<close>
  | IdStart          \<comment> \<open>\<^verbatim>\<open>[a-zA-Z_$]\<close>\<close>
  | IdRest           \<comment> \<open>\<^verbatim>\<open>[a-zA-Z0-9_$]\<close>\<close>

fun in_class :: "cclass \<Rightarrow> char \<Rightarrow> bool" where
  "in_class (Ch c) x = (x = c)"
| "in_class (NotCh c) x = (x \<noteq> c)"
| "in_class Space x = (x \<in> set space_chars)"
| "in_class Dot x = (x \<noteq> CHR 0x0A \<and> x \<noteq> CHR 0x0D)"
| "in_class RobotStart x = (x \<in> set (lower_chars @ upper_chars @ ''_''))"
| "in_class RobotRest x = (x \<in> set (lower_chars @ upper_chars @ digit_chars @ ''_''))"
| "in_class IdStart x = (x \<in> set (lower_chars @ upper_chars @ ''_$''))"
| "in_class IdRest x = (x \<in> set (lower_chars @ upper_chars @ digit_chars @ ''_$''))"

datatype node =
    One cclass       \<comment> \<open>one character of the class\<close>
  | Star cclass      \<comment> \<open>\<^verbatim>\<open>*\<close>, greedy\<close>
  | LazyStar cclass  \<comment> \<open>\<^verbatim>\<open>*?\<close>, lazy\<close>
  | Eoi              \<comment> \<open>\<^verbatim>\<open>$\<close>\<close>
  | Boi              \<comment> \<open>\<^verbatim>\<open>^\<close>\<close>
  | GOpen            \<comment> \<open>the opening parenthesis of group 1\<close>
  | GClose           \<comment> \<open>the closing parenthesis of group 1\<close>

text \<open>
  \<open>rmatch r s k (g, h)\<close> matches the pattern \<open>r\<close> against the rest \<open>s\<close> of the input,
  which starts at offset \<open>k\<close> of the line; \<open>(g, h)\<close> are the offsets where group 1 was
  last opened and closed. The result is the offset where the match ends, with the
  group's offsets.
\<close>

fun rmatch :: "node list \<Rightarrow> string \<Rightarrow> nat \<Rightarrow> nat \<times> nat \<Rightarrow> (nat \<times> nat \<times> nat) option" where
  "rmatch [] s k (g, h) = Some (k, g, h)"
| "rmatch (One C # r) [] k gh = None"
| "rmatch (One C # r) (x # xs) k gh = (if in_class C x then rmatch r xs (Suc k) gh else None)"
| "rmatch (Star C # r) [] k gh = rmatch r [] k gh"
| "rmatch (Star C # r) (x # xs) k gh =
     (if in_class C x
      then (case rmatch (Star C # r) xs (Suc k) gh of
              Some z \<Rightarrow> Some z
            | None \<Rightarrow> rmatch r (x # xs) k gh)
      else rmatch r (x # xs) k gh)"
| "rmatch (LazyStar C # r) [] k gh = rmatch r [] k gh"
| "rmatch (LazyStar C # r) (x # xs) k gh =
     (case rmatch r (x # xs) k gh of
        Some z \<Rightarrow> Some z
      | None \<Rightarrow> (if in_class C x then rmatch (LazyStar C # r) xs (Suc k) gh else None))"
| "rmatch (Eoi # r) s k gh = (if s = [] then rmatch r s k gh else None)"
| "rmatch (Boi # r) s k gh = (if k = 0 then rmatch r s k gh else None)"
| "rmatch (GOpen # r) s k (g, h) = rmatch r s k (k, h)"
| "rmatch (GClose # r) s k (g, h) = rmatch r s k (g, k)"

text \<open>
  \<open>rsearch r s i\<close> is one call of \<^verbatim>\<open>exec\<close> from offset \<open>i\<close>, where \<open>s\<close> is the line from
  that offset on: the leftmost offset at which the pattern matches, as
  (start, end, group open, group close).
\<close>

fun rsearch :: "node list \<Rightarrow> string \<Rightarrow> nat \<Rightarrow> (nat \<times> nat \<times> nat \<times> nat) option" where
  "rsearch r [] i = (case rmatch r [] i (i, i) of Some z \<Rightarrow> Some (i, z) | None \<Rightarrow> None)"
| "rsearch r (x # xs) i =
     (case rmatch r (x # xs) i (i, i) of Some z \<Rightarrow> Some (i, z) | None \<Rightarrow> rsearch r xs (Suc i))"

text \<open>
  \<^verbatim>\<open>while ((match = regex.exec(line)) !== null) { ... }\<close> with a \<^verbatim>\<open>g\<close> pattern: each
  call searches from \<^verbatim>\<open>lastIndex\<close>, and a match moves \<^verbatim>\<open>lastIndex\<close> to its end. A match
  that consumes nothing leaves \<^verbatim>\<open>lastIndex\<close> where it was, and the loop of the source
  then never ends: that is the value \<open>None\<close>. (A match on the empty rest of the line
  consumes nothing.)
\<close>

fun exec_loop :: "node list \<Rightarrow> string \<Rightarrow> nat \<Rightarrow> (nat \<times> nat \<times> nat \<times> nat) list option" where
  "exec_loop r [] i = (case rmatch r [] i (i, i) of Some z \<Rightarrow> None | None \<Rightarrow> Some [])"
| "exec_loop r (x # xs) i =
     (case rmatch r (x # xs) i (i, i) of
        Some (e, g, h) \<Rightarrow>
          (if e \<le> i then None
           else map_option ((#) (i, e, g, h)) (exec_loop r (drop (e - Suc i) xs) e))
      | None \<Rightarrow> exec_loop r xs (Suc i))"

definition substring :: "string \<Rightarrow> nat \<Rightarrow> nat \<Rightarrow> string" where
  "substring s a b = take (b - a) (drop a s)"

text \<open>\<^verbatim>\<open>line.match(regex)\<close> for a pattern without \<^verbatim>\<open>g\<close>: \<^verbatim>\<open>match[1]\<close>, or none.\<close>

definition capture :: "node list \<Rightarrow> string \<Rightarrow> string option" where
  "capture r line =
     (case rsearch r line 0 of
        None \<Rightarrow> None
      | Some (i, e, g, h) \<Rightarrow> Some (substring line g h))"

text \<open>\<^verbatim>\<open>regex.test(word)\<close>.\<close>

definition regex_test :: "node list \<Rightarrow> string \<Rightarrow> bool" where
  "regex_test r word = (rsearch r word 0 \<noteq> None)"

text \<open>
  All matches of a \<^verbatim>\<open>g\<close> pattern on a line, in the order the loop meets them. Both
  \<^verbatim>\<open>g\<close> patterns of the program consume at least two characters per match, so their
  loops end (\<open>robotVarRegex_loop_ends\<close>, \<open>assignmentRegex_loop_ends\<close> below) and the
  second branch is never taken for them.
\<close>

definition exec_all :: "node list \<Rightarrow> string \<Rightarrow> (nat \<times> nat \<times> nat \<times> nat) list" where
  "exec_all r line = (case exec_loop r line 0 of Some ms \<Rightarrow> ms | None \<Rightarrow> [])"

subsection \<open>The patterns of the source\<close>

text \<open>\<^verbatim>\<open>/\$\{([a-zA-Z_][a-zA-Z0-9_]*)\}/g\<close> (lines 76 and 157).\<close>

definition robotVarRegex :: "node list" where
  "robotVarRegex =
     [One (Ch CHR ''$''), One (Ch CHR ''{''), GOpen, One RobotStart, Star RobotRest, GClose,
      One (Ch CHR ''}'')]"

text \<open>\<^verbatim>\<open>/([a-zA-Z_$][a-zA-Z0-9_$]*)\s*=/g\<close> (line 171).\<close>

definition assignmentRegex :: "node list" where
  "assignmentRegex = [GOpen, One IdStart, Star IdRest, GClose, Star Space, One (Ch CHR ''='')]"

text \<open>\<^verbatim>\<open>/^[a-zA-Z_$][a-zA-Z0-9_$]*$/\<close> (lines 98 and 366).\<close>

definition wordRegex :: "node list" where
  "wordRegex = [Boi, One IdStart, Star IdRest, Eoi]"

text \<open>
  A variable name spliced into a pattern by a template literal is read as pattern text.
  Every name the program splices comes out of \<open>robotVarRegex\<close>, \<open>assignmentRegex\<close> or
  \<open>wordRegex\<close>, so it consists of letters, digits, \<^verbatim>\<open>_\<close> and \<^verbatim>\<open>$\<close>: the first three
  stand for themselves and \<^verbatim>\<open>$\<close> is the end-of-input assertion. Names with other
  characters are outside this model.
\<close>

definition name_nodes :: "string \<Rightarrow> node list" where
  "name_nodes variableName = map (\<lambda>c. if c = CHR ''$'' then Eoi else One (Ch c)) variableName"

text \<open>
  \<^verbatim>\<open>new RegExp(`${variableName}\\s*=\\s*"([^"]*)"`)\<close> and its two siblings for
  \<^verbatim>\<open>'\<close> and the back quote (lines 108 to 110 and 379 to 381), by the quote character.
\<close>

definition quoteRegex :: "char \<Rightarrow> string \<Rightarrow> node list" where
  "quoteRegex q variableName =
     name_nodes variableName @
     [Star Space, One (Ch CHR ''=''), Star Space, One (Ch q), GOpen, Star (NotCh q), GClose,
      One (Ch q)]"

definition doubleQuoteRegex :: "string \<Rightarrow> node list" where
  "doubleQuoteRegex = quoteRegex dquote"

definition singleQuoteRegex :: "string \<Rightarrow> node list" where
  "singleQuoteRegex = quoteRegex squote"

definition backQuoteRegex :: "string \<Rightarrow> node list" where
  "backQuoteRegex = quoteRegex bquote"

text \<open>\<^verbatim>\<open>new RegExp(`\\$\\{${variableName}\\}\\s+(.+?)$`)\<close> (line 127).\<close>

definition robotValueRegex :: "string \<Rightarrow> node list" where
  "robotValueRegex variableName =
     [One (Ch CHR ''$''), One (Ch CHR ''{'')] @ name_nodes variableName @
     [One (Ch CHR ''}''), One Space, Star Space, GOpen, One Dot, LazyStar Dot, GClose, Eoi]"

text \<open>\<^verbatim>\<open>String.prototype.trim\<close>.\<close>

definition trim :: "string \<Rightarrow> string" where
  "trim s = rev (dropWhile (in_class Space) (rev (dropWhile (in_class Space) s)))"

section \<open>The data of the extension\<close>

subsection \<open>JavaScript values\<close>

text \<open>
  The values a property read can give in this program: \<^verbatim>\<open>undefined\<close>, \<^verbatim>\<open>null\<close>, a
  string, or a member that every plain object inherits from \<^verbatim>\<open>Object.prototype\<close> (a
  function, or the prototype object itself for \<^verbatim>\<open>__proto__\<close>).
\<close>

datatype jsval = Undefined | Null | Str string | Builtin

fun js_truthy :: "jsval \<Rightarrow> bool" where
  "js_truthy Undefined = False"
| "js_truthy Null = False"
| "js_truthy (Str s) = (s \<noteq> [])"
| "js_truthy Builtin = True"

text \<open>
  The property names of \<^verbatim>\<open>Object.prototype\<close>. An object made by \<^verbatim>\<open>{}\<close> or by
  \<^verbatim>\<open>JSON.parse\<close> answers a read of one of these names with the inherited member unless
  it has a property of its own under that name.
\<close>

definition object_prototype_props :: "string list" where
  "object_prototype_props =
     [''constructor'', ''hasOwnProperty'', ''isPrototypeOf'', ''propertyIsEnumerable'',
      ''toLocaleString'', ''toString'', ''valueOf'', ''__proto__'', ''__defineGetter__'',
      ''__defineSetter__'', ''__lookupGetter__'', ''__lookupSetter__'']"

text \<open>\<^verbatim>\<open>cache[name]\<close> for the assignment cache, an object whose own values are strings.\<close>

definition js_get :: "(string \<rightharpoonup> string) \<Rightarrow> string \<Rightarrow> jsval" where
  "js_get obj name =
     (case obj name of
        Some v \<Rightarrow> Str v
      | None \<Rightarrow> if name \<in> set object_prototype_props then Builtin else Undefined)"

text \<open>\<^verbatim>\<open>v || null\<close>.\<close>

definition or_null :: "jsval \<Rightarrow> jsval" where
  "or_null v = (if js_truthy v then v else Null)"

subsection \<open>Selector descriptors and the metadata table\<close>

text \<open>
  The metadata file holds an object that maps a variable name to a descriptor, an object
  with the optional string fields \<^verbatim>\<open>tag\<close>, \<^verbatim>\<open>text\<close>, \<^verbatim>\<open>xpath\<close>, \<^verbatim>\<open>css\<close> and
  \<^verbatim>\<open>photo\<close>. A field that is absent is \<open>None\<close>. The table is the object's own
  properties. Metadata of another shape (a JSON value that is not an object, an entry
  that is not an object, a field that is not a string) is outside this model.
\<close>

record descriptor =
  tag :: "string option"
  text' :: "string option"
  xpath :: "string option"
  css :: "string option"
  photo :: "string option"

type_synonym metadata = "string \<rightharpoonup> descriptor"

text \<open>\<^verbatim>\<open>metadata[variableName]\<close>: a descriptor of the table, an inherited member, or nothing.\<close>

datatype element = ElUndefined | ElInherited | ElOwn descriptor

definition metadata_get :: "metadata \<Rightarrow> string \<Rightarrow> element" where
  "metadata_get metadata name =
     (case metadata name of
        Some d \<Rightarrow> ElOwn d
      | None \<Rightarrow> if name \<in> set object_prototype_props then ElInherited else ElUndefined)"

text \<open>\<^verbatim>\<open>element.field\<close>: the inherited members have none of the descriptor's fields.\<close>

fun el_field :: "(descriptor \<Rightarrow> string option) \<Rightarrow> element \<Rightarrow> string option" where
  "el_field f (ElOwn d) = f d"
| "el_field f ElInherited = None"
| "el_field f ElUndefined = None"

subsection \<open>The host: workspace, file system, JSON parser, paths\<close>

datatype fnode = Content string | Unreadable

datatype exn = IllegalLine | IOError | SyntaxError | TypeError

text \<open>
  What the editor and Node give the extension, as parameters: the first workspace
  folder if there is one, the files that exist (one that exists but cannot be read as
  text, a directory for instance, is \<open>Unreadable\<close>), \<^verbatim>\<open>JSON.parse\<close> on tables (none: it
  throws), \<^verbatim>\<open>path.join\<close> and \<^verbatim>\<open>vscode.Uri.file(p).toString()\<close>.
\<close>

record host =
  workspaceFolder :: "string option"
  files :: "string \<rightharpoonup> fnode"
  json_parse :: "string \<rightharpoonup> metadata"
  path_join :: "string \<Rightarrow> string \<Rightarrow> string"
  uri_file :: "string \<Rightarrow> string"

subsection \<open>Documents\<close>

text \<open>
  A text document of the editor: its path, its language, its lines, and what
  \<^verbatim>\<open>getWordRangeAtPosition\<close> followed by \<^verbatim>\<open>getText\<close> gives at a position
  (line, character).
\<close>

record document =
  fsPath :: string
  languageId :: string
  doc_lines :: "string list"
  wordAt :: "nat \<times> nat \<Rightarrow> string option"

text \<open>\<^verbatim>\<open>document.lineAt(i).text\<close>; the editor throws on a line that does not exist.\<close>

definition lineAt :: "document \<Rightarrow> nat \<Rightarrow> exn + string" where
  "lineAt doc i = (if i < length (doc_lines doc) then Inr (doc_lines doc ! i) else Inl IllegalLine)"

subsection \<open>The hover provider's state\<close>

datatype log_entry = LoadError exn | HoverError exn

text \<open>
  The fields of \<^verbatim>\<open>ElementHoverProvider\<close> (lines 22 to 34), and two traces of what the
  provider did to the outside: the calls of \<^verbatim>\<open>console.error\<close> and the paths given to
  \<^verbatim>\<open>fs.readFileSync\<close>, in order.
\<close>

record provider =
  metadataCache :: "metadata option"
  metadataCachePath :: "string option"
  lastCacheTime :: int
  cacheTimeout :: int
  variableAssignmentCache :: "string \<rightharpoonup> string"
  variableAssignmentCachePath :: "string option"
  variableAssignmentCacheTime :: int
  variableAssignmentCacheTimeout :: int
  console :: "log_entry list"
  file_reads :: "string list"

definition new_provider :: provider where
  "new_provider =
     \<lparr>metadataCache = None, metadataCachePath = None, lastCacheTime = 0, cacheTimeout = 5000,
      variableAssignmentCache = Map.empty, variableAssignmentCachePath = None,
      variableAssignmentCacheTime = 0, variableAssignmentCacheTimeout = 5000,
      console = [], file_reads = []\<rparr>"

text \<open>A hover: the pieces appended to the \<^verbatim>\<open>MarkdownString\<close>, in order (lines 260 to 274).\<close>

datatype md_part =
    ImagePart string           \<comment> \<open>\<^verbatim>\<open>![Element](uri|width=400)\<close>\<close>
  | TagLine "string option"    \<comment> \<open>\<^verbatim>\<open>**Tag**: `tag`\<close>, whatever \<^verbatim>\<open>element.tag\<close> is\<close>
  | TextLine string            \<comment> \<open>\<^verbatim>\<open>**Text**: text\<close>\<close>
  | XPathBlock string          \<comment> \<open>\<^verbatim>\<open>**XPath**:\<close> and the xpath as a code block\<close>
  | CssBlock string            \<comment> \<open>\<^verbatim>\<open>**CSS**:\<close> and the css as a code block\<close>

type_synonym hover = "md_part list"

section \<open>The functions of the extension\<close>

subsection \<open>\<^verbatim>\<open>loadMetadata\<close> (lines 37 to 66)\<close>

definition existsSync :: "host \<Rightarrow> string \<Rightarrow> bool" where
  "existsSync h p = (files h p \<noteq> None)"

definition readFileSync :: "host \<Rightarrow> string \<Rightarrow> provider \<Rightarrow> (exn + string) \<times> provider" where
  "readFileSync h p s =
     (let s1 = s\<lparr>file_reads := file_reads s @ [p]\<rparr>
      in case files h p of
           Some (Content raw) \<Rightarrow> (Inr raw, s1)
         | Some Unreadable \<Rightarrow> (Inl IOError, s1)
         | None \<Rightarrow> (Inl IOError, s1))"

definition JSON_parse :: "host \<Rightarrow> string \<Rightarrow> exn + metadata" where
  "JSON_parse h raw = (case json_parse h raw of Some m \<Rightarrow> Inr m | None \<Rightarrow> Inl SyntaxError)"

text \<open>The body of the \<^verbatim>\<open>try\<close> block, lines 53 to 61.\<close>

definition loadMetadata_try :: "host \<Rightarrow> int \<Rightarrow> string \<Rightarrow> provider \<Rightarrow> (exn + metadata) \<times> provider" where
  "loadMetadata_try h now metadataFile s =
     (case readFileSync h metadataFile s of
        (Inl e, s1) \<Rightarrow> (Inl e, s1)
      | (Inr rawMetadata, s1) \<Rightarrow>
          (case JSON_parse h rawMetadata of
             Inl e \<Rightarrow> (Inl e, s1)
           | Inr metadata \<Rightarrow>
               (Inr metadata,
                s1\<lparr>metadataCache := Some metadata, metadataCachePath := Some metadataFile,
                   lastCacheTime := now\<rparr>)))"

text \<open>The test of lines 41 to 43; a cached table is an object, so it is truthy.\<close>

definition metadata_fresh :: "int \<Rightarrow> string \<Rightarrow> provider \<Rightarrow> bool" where
  "metadata_fresh now metadataFile s =
     (metadataCache s \<noteq> None \<and> metadataCachePath s = Some metadataFile \<and>
      now - lastCacheTime s < cacheTimeout s)"

text \<open>
  \<open>now\<close> is what \<^verbatim>\<open>Date.now()\<close> returns in this call. The result \<open>Inl e\<close> would be an
  exception that reaches the caller, \<open>Inr None\<close> is \<^verbatim>\<open>null\<close>.
\<close>

definition loadMetadata :: "host \<Rightarrow> int \<Rightarrow> string \<Rightarrow> provider \<Rightarrow> (exn + metadata option) \<times> provider" where
  "loadMetadata h now metadataFile s =
     (if metadata_fresh now metadataFile s then (Inr (metadataCache s), s)
      else if \<not> existsSync h metadataFile then (Inr None, s)
      else (case loadMetadata_try h now metadataFile s of
              (Inr metadata, s1) \<Rightarrow> (Inr (Some metadata), s1)
            | (Inl error, s1) \<Rightarrow> (Inr None, s1\<lparr>console := console s1 @ [LoadError error]\<rparr>)))"

subsection \<open>\<^verbatim>\<open>getVariableAtPosition\<close> (lines 69 to 103)\<close>

text \<open>The loop of lines 79 to 87 over the matches (start, end, group open, group close).\<close>

fun first_covering :: "string \<Rightarrow> nat \<Rightarrow> (nat \<times> nat \<times> nat \<times> nat) list \<Rightarrow> string option" where
  "first_covering line character [] = None"
| "first_covering line character ((varStart, varEnd, g, h) # ms) =
     (if character \<ge> varStart \<and> character \<le> varEnd then Some (substring line g h)
      else first_covering line character ms)"

definition getVariableAtPosition :: "document \<Rightarrow> nat \<times> nat \<Rightarrow> exn + string option" where
  "getVariableAtPosition doc position =
     (case lineAt doc (fst position) of
        Inl e \<Rightarrow> Inl e
      | Inr line \<Rightarrow>
          if languageId doc = ''robotframework''
          then Inr (first_covering line (snd position) (exec_all robotVarRegex line))
          else (case wordAt doc position of
                  None \<Rightarrow> Inr None
                | Some word \<Rightarrow> if \<not> regex_test wordRegex word then Inr None else Inr (Some word)))"

subsection \<open>\<^verbatim>\<open>extractVariableValue\<close> (lines 106 to 122, and again 374 to 393)\<close>

text \<open>\<^verbatim>\<open>match && match[1]\<close>: there is a match and its group is not the empty string.\<close>

fun truthy_capture :: "string option \<Rightarrow> bool" where
  "truthy_capture None = False"
| "truthy_capture (Some v) = (v \<noteq> [])"

definition extractVariableValue :: "string \<Rightarrow> string \<Rightarrow> string option" where
  "extractVariableValue line variableName =
     (let m1 = capture (doubleQuoteRegex variableName) line in
      if truthy_capture m1 then m1
      else let m2 = capture (singleQuoteRegex variableName) line in
      if truthy_capture m2 then m2
      else let m3 = capture (backQuoteRegex variableName) line in
      if truthy_capture m3 then m3
      else None)"

subsection \<open>\<^verbatim>\<open>extractRobotVariableValue\<close> (lines 126 to 135)\<close>

definition extractRobotVariableValue :: "string \<Rightarrow> string \<Rightarrow> string option" where
  "extractRobotVariableValue line variableName =
     (let m = capture (robotValueRegex variableName) line in
      if truthy_capture m then map_option trim m else None)"

subsection \<open>\<^verbatim>\<open>buildVariableAssignmentCache\<close> (lines 138 to 191)\<close>

text \<open>\<^verbatim>\<open>match[1]\<close> of every match of a \<^verbatim>\<open>g\<close> pattern on the line.\<close>

definition matched_names :: "node list \<Rightarrow> string \<Rightarrow> string list" where
  "matched_names r line = map (\<lambda>(i, e, g, h). substring line g h) (exec_all r line)"

text \<open>
  The body of either \<^verbatim>\<open>while\<close> loop (lines 160 to 167 and 174 to 181), with the
  extractor of the language.
\<close>

definition record_var ::
  "(string \<Rightarrow> string \<Rightarrow> string option) \<Rightarrow> string \<Rightarrow> string \<Rightarrow> (string \<rightharpoonup> string) \<Rightarrow> (string \<rightharpoonup> string)" where
  "record_var extract line varName cache =
     (if \<not> js_truthy (js_get cache varName)
      then (case extract line varName of
              Some v \<Rightarrow> if v \<noteq> [] then cache(varName \<mapsto> v) else cache
            | None \<Rightarrow> cache)
      else cache)"

text \<open>The body of the \<^verbatim>\<open>for\<close> loop, lines 153 to 183.\<close>

definition scan_line :: "bool \<Rightarrow> string \<Rightarrow> (string \<rightharpoonup> string) \<Rightarrow> (string \<rightharpoonup> string)" where
  "scan_line isRobot line cache =
     (if isRobot
      then fold (record_var extractRobotVariableValue line) (matched_names robotVarRegex line) cache
      else fold (record_var extractVariableValue line) (matched_names assignmentRegex line) cache)"

text \<open>
  The test of lines 142 to 144. Its first conjunct, \<^verbatim>\<open>this.variableAssignmentCache\<close>,
  always holds: the field is an object from the constructor on.
\<close>

definition assignments_fresh :: "int \<Rightarrow> document \<Rightarrow> provider \<Rightarrow> bool" where
  "assignments_fresh now doc s =
     (variableAssignmentCachePath s = Some (fsPath doc) \<and>
      now - variableAssignmentCacheTime s < variableAssignmentCacheTimeout s)"

definition buildVariableAssignmentCache ::
  "int \<Rightarrow> document \<Rightarrow> provider \<Rightarrow> (string \<rightharpoonup> string) \<times> provider" where
  "buildVariableAssignmentCache now doc s =
     (if assignments_fresh now doc s then (variableAssignmentCache s, s)
      else (let isRobot = (languageId doc = ''robotframework'');
                cache = fold (scan_line isRobot) (doc_lines doc) Map.empty
            in (cache,
                s\<lparr>variableAssignmentCache := cache,
                  variableAssignmentCachePath := Some (fsPath doc),
                  variableAssignmentCacheTime := now\<rparr>)))"

subsection \<open>\<^verbatim>\<open>findVariableAssignmentEfficient\<close> (lines 194 to 197)\<close>

definition findVariableAssignmentEfficient ::
  "int \<Rightarrow> document \<Rightarrow> string \<Rightarrow> provider \<Rightarrow> jsval \<times> provider" where
  "findVariableAssignmentEfficient now doc variableName s =
     (case buildVariableAssignmentCache now doc s of
        (cache, s1) \<Rightarrow> (or_null (js_get cache variableName), s1))"

subsection \<open>\<^verbatim>\<open>provideHover\<close> (lines 200 to 284)\<close>

text \<open>
  \<^verbatim>\<open>(element.xpath && element.xpath === actualValue) ||
  (element.css && element.css === actualValue)\<close>
\<close>

fun field_matches :: "string option \<Rightarrow> jsval \<Rightarrow> bool" where
  "field_matches None actualValue = False"
| "field_matches (Some x) actualValue = (x \<noteq> [] \<and> Str x = actualValue)"

definition hasMatchingValue :: "element \<Rightarrow> jsval \<Rightarrow> bool" where
  "hasMatchingValue element actualValue =
     (field_matches (el_field xpath element) actualValue \<or>
      field_matches (el_field css element) actualValue)"

text \<open>An optional piece of the hover: appended when the field is a non-empty string.\<close>

fun optional_part :: "(string \<Rightarrow> md_part) \<Rightarrow> string option \<Rightarrow> md_part list" where
  "optional_part mk None = []"
| "optional_part mk (Some x) = (if x \<noteq> [] then [mk x] else [])"

definition markdown :: "host \<Rightarrow> string \<Rightarrow> element \<Rightarrow> hover" where
  "markdown h photoPath element =
     [ImagePart (uri_file h photoPath), TagLine (el_field tag element)] @
     optional_part TextLine (el_field text' element) @
     optional_part XPathBlock (el_field xpath element) @
     optional_part CssBlock (el_field css element)"

text \<open>
  The body of the \<^verbatim>\<open>try\<close> block, lines 203 to 278, in four steps, the last one first:
  each step either returns or goes on with the next. \<open>now1\<close> and \<open>now2\<close> are the two
  readings of \<^verbatim>\<open>Date.now()\<close>, in \<^verbatim>\<open>loadMetadata\<close> and in
  \<^verbatim>\<open>buildVariableAssignmentCache\<close>. \<^verbatim>\<open>path.join\<close> throws a \<^verbatim>\<open>TypeError\<close> on an
  argument that is not a string, here on a photo that is absent. The result \<open>Inl e\<close> is
  an exception thrown inside the block, \<open>Inr None\<close> is \<^verbatim>\<open>return null\<close>.
\<close>

definition provideHover_show :: "host \<Rightarrow> string \<Rightarrow> element \<Rightarrow> provider \<Rightarrow> (exn + hover option) \<times> provider" where
  \<comment> \<open>lines 250 to 278\<close>
  "provideHover_show h photosDir element s =
     (case el_field photo element of
        None \<Rightarrow> (Inl TypeError, s)
      | Some ph \<Rightarrow>
          (let photoPath = path_join h photosDir ph
           in if \<not> existsSync h photoPath then (Inr None, s)
              else (Inr (Some (markdown h photoPath element)), s)))"

definition provideHover_check ::
  "host \<Rightarrow> int \<Rightarrow> document \<Rightarrow> string \<Rightarrow> string \<Rightarrow> element \<Rightarrow> provider \<Rightarrow> (exn + hover option) \<times> provider" where
  \<comment> \<open>lines 232 to 248, then the rest\<close>
  "provideHover_check h now2 doc variableName photosDir element s =
     (case findVariableAssignmentEfficient now2 doc variableName s of
        (actualValue, s2) \<Rightarrow>
          if \<not> js_truthy actualValue then (Inr None, s2)
          else if \<not> hasMatchingValue element actualValue then (Inr None, s2)
          else provideHover_show h photosDir element s2)"

definition provideHover_lookup ::
  "host \<Rightarrow> int \<Rightarrow> int \<Rightarrow> document \<Rightarrow> string \<Rightarrow> string \<Rightarrow> provider \<Rightarrow> (exn + hover option) \<times> provider" where
  \<comment> \<open>lines 213 to 230, then the rest\<close>
  "provideHover_lookup h now1 now2 doc variableName root s =
     (let photosDir = path_join h root ''.photos'';
          metadataFile = path_join h photosDir ''element_selectors.json''
      in if \<not> existsSync h metadataFile then (Inr None, s)
         else (case loadMetadata h now1 metadataFile s of
                 (Inl e, s1) \<Rightarrow> (Inl e, s1)
               | (Inr None, s1) \<Rightarrow> (Inr None, s1)
               | (Inr (Some metadata), s1) \<Rightarrow>
                   (let element = metadata_get metadata variableName
                    in if element = ElUndefined then (Inr None, s1)
                       else provideHover_check h now2 doc variableName photosDir element s1)))"

definition provideHover_try ::
  "host \<Rightarrow> int \<Rightarrow> int \<Rightarrow> document \<Rightarrow> nat \<times> nat \<Rightarrow> provider \<Rightarrow> (exn + hover option) \<times> provider" where
  \<comment> \<open>lines 203 to 211, then the rest\<close>
  "provideHover_try h now1 now2 doc position s =
     (case getVariableAtPosition doc position of
        Inl e \<Rightarrow> (Inl e, s)
      | Inr None \<Rightarrow> (Inr None, s)
      | Inr (Some variableName) \<Rightarrow>
          if variableName = [] then (Inr None, s)
          else (case workspaceFolder h of
                  None \<Rightarrow> (Inr None, s)
                | Some root \<Rightarrow> provideHover_lookup h now1 now2 doc variableName root s))"

definition provideHover ::
  "host \<Rightarrow> int \<Rightarrow> int \<Rightarrow> document \<Rightarrow> nat \<times> nat \<Rightarrow> provider \<Rightarrow> hover option \<times> provider" where
  "provideHover h now1 now2 doc position s =
     (case provideHover_try h now1 now2 doc position s of
        (Inr result, s1) \<Rightarrow> (result, s1)
      | (Inl error, s1) \<Rightarrow> (None, s1\<lparr>console := console s1 @ [HoverError error]\<rparr>))"

subsection \<open>The older provider (lines 296 to 515): \<^verbatim>\<open>findVariableAssignment\<close>\<close>

text \<open>The loop of lines 399 to 405: the first line that gives a value.\<close>

fun findVariableAssignment_lines :: "string list \<Rightarrow> string \<Rightarrow> string option" where
  "findVariableAssignment_lines [] variableName = None"
| "findVariableAssignment_lines (line # ls) variableName =
     (let v = extractVariableValue line variableName in
      if truthy_capture v then v else findVariableAssignment_lines ls variableName)"

definition findVariableAssignment :: "document \<Rightarrow> string \<Rightarrow> string option" where
  "findVariableAssignment doc variableName = findVariableAssignment_lines (doc_lines doc) variableName"

text \<open>
  Lines 448 to 454 of the older \<^verbatim>\<open>provideHover\<close>: the value on the line of the cursor,
  else the first one in the document.
\<close>

definition legacy_actualValue :: "document \<Rightarrow> nat \<times> nat \<Rightarrow> string \<Rightarrow> exn + string option" where
  "legacy_actualValue doc position variableName =
     (case lineAt doc (fst position) of
        Inl e \<Rightarrow> Inl e
      | Inr line \<Rightarrow>
          (let actualValue = extractVariableValue line variableName in
           if truthy_capture actualValue then Inr actualValue
           else Inr (findVariableAssignment doc variableName)))"

section \<open>Notions used to state the properties\<close>

text \<open>The extractor and the \<^verbatim>\<open>g\<close> pattern that \<open>scan_line\<close> uses for a language.\<close>

definition extractor :: "bool \<Rightarrow> string \<Rightarrow> string \<Rightarrow> string option" where
  "extractor isRobot = (if isRobot then extractRobotVariableValue else extractVariableValue)"

definition name_pattern :: "bool \<Rightarrow> node list" where
  "name_pattern isRobot = (if isRobot then robotVarRegex else assignmentRegex)"

text \<open>
  A line assigns a name when the \<^verbatim>\<open>g\<close> pattern of the language matches the name on the
  line and the extractor gives a non-empty value for it there.
\<close>

definition assigns :: "bool \<Rightarrow> string \<Rightarrow> string \<Rightarrow> bool" where
  "assigns isRobot name line =
     (name \<in> set (matched_names (name_pattern isRobot) line) \<and>
      truthy_capture (extractor isRobot line name))"

text \<open>
  The index that the scan of lines 149 to 184 builds from a document: what
  \<open>buildVariableAssignmentCache\<close> stores and returns when it does not reuse the cached one
  (\<open>build_index\<close> below).
\<close>

definition index_of :: "document \<Rightarrow> (string \<rightharpoonup> string)" where
  "index_of doc = fold (scan_line (languageId doc = ''robotframework'')) (doc_lines doc) Map.empty"

text \<open>Hosts, documents and provider states for the examples.\<close>

definition no_files_host :: host where
  "no_files_host =
     \<lparr>workspaceFolder = Some ''/w'', files = Map.empty, json_parse = Map.empty,
      path_join = (\<lambda>a b. a @ ''/'' @ b), uri_file = (\<lambda>p. ''file://'' @ p)\<rparr>"

definition garbage_host :: host where
  "garbage_host =
     \<lparr>workspaceFolder = Some ''/w'',
      files = [''/w/.photos/element_selectors.json'' \<mapsto> Content ''{''],
      json_parse = Map.empty,
      path_join = (\<lambda>a b. a @ ''/'' @ b), uri_file = (\<lambda>p. ''file://'' @ p)\<rparr>"

definition table_host :: host where
  "table_host =
     \<lparr>workspaceFolder = Some ''/w'',
      files = [''/w/.photos/element_selectors.json'' \<mapsto> Content ''{}''],
      json_parse = [''{}'' \<mapsto> Map.empty],
      path_join = (\<lambda>a b. a @ ''/'' @ b), uri_file = (\<lambda>p. ''file://'' @ p)\<rparr>"

definition cached_at :: "int \<Rightarrow> provider" where
  "cached_at t =
     new_provider\<lparr>metadataCache := Some Map.empty,
       metadataCachePath := Some ''/w/.photos/element_selectors.json'', lastCacheTime := t\<rparr>"

definition js_document :: "string list \<Rightarrow> document" where
  "js_document ls =
     \<lparr>fsPath = ''/w/page.js'', languageId = ''javascript'', doc_lines = ls,
      wordAt = (\<lambda>p. None)\<rparr>"

text \<open>A value or none, as the JavaScript value it is: the string, or \<^verbatim>\<open>null\<close>.\<close>

fun as_jsval :: "string option \<Rightarrow> jsval" where
  "as_jsval None = Null"
| "as_jsval (Some v) = Str v"

definition three_line_document :: document where
  "three_line_document =
     js_document [''y = '' @ [dquote] @ ''q'' @ [dquote], ''x = '' @ [dquote] @ ''a'' @ [dquote],
       ''x = '' @ [dquote] @ ''b'' @ [dquote]]"

definition use_below_document :: document where
  "use_below_document = js_document [''x = '' @ [dquote] @ ''a'' @ [dquote], ''click(x)'']"

text \<open>The two paths \<^verbatim>\<open>provideHover\<close> computes from the workspace root (lines 213 and 214), and the data of the button example.\<close>

definition photos_dir :: "host \<Rightarrow> string \<Rightarrow> string" where
  "photos_dir h root = path_join h root ''.photos''"

definition metadata_path :: "host \<Rightarrow> string \<Rightarrow> string" where
  "metadata_path h root = path_join h (photos_dir h root) ''element_selectors.json''"

definition button_descriptor :: descriptor where
  "button_descriptor =
     \<lparr>tag = Some ''button'', text' = None, xpath = Some ''//button[1]'', css = None,
      photo = Some ''btn.png''\<rparr>"

definition button_line :: string where
  "button_line = ''BTN = '' @ [dquote] @ ''//button[1]'' @ [dquote]"

definition button_host :: "metadata \<Rightarrow> bool \<Rightarrow> host" where
  "button_host table png =
     \<lparr>workspaceFolder = Some ''/w'',
      files = (if png
               then [''/w/.photos/element_selectors.json'' \<mapsto> Content ''{..}'',
                     ''/w/.photos/btn.png'' \<mapsto> Content ''png'']
               else [''/w/.photos/element_selectors.json'' \<mapsto> Content ''{..}'']),
      json_parse = [''{..}'' \<mapsto> table],
      path_join = (\<lambda>a b. a @ ''/'' @ b), uri_file = (\<lambda>p. ''file://'' @ p)\<rparr>"

definition button_document :: document where
  "button_document =
     \<lparr>fsPath = ''/w/page.py'', languageId = ''python'', doc_lines = [button_line],
      wordAt = (\<lambda>p. if fst p = 0 \<and> snd p \<le> 3 then Some ''BTN'' else None)\<rparr>"

text \<open>
  Three more situations of the button example: a script where the assignment stands inside
  a longer line and the name is used on a later line; a document where an earlier line
  assigns the name another value; and the provider as a hover over \<open>button_document\<close> at
  time \<open>t\<close> leaves it (\<open>first_hover_state\<close> below), both caches filled.
\<close>

definition script_document :: document where
  "script_document =
     \<lparr>fsPath = ''/w/page.js'', languageId = ''javascript'',
      doc_lines = [''// page'', ''const '' @ button_line @ '';'', ''click(BTN)''],
      wordAt = (\<lambda>p. if fst p = 2 \<and> 6 \<le> snd p \<and> snd p \<le> 9 then Some ''BTN'' else None)\<rparr>"

definition shadowed_document :: document where
  "shadowed_document =
     \<lparr>fsPath = ''/w/page.py'', languageId = ''python'',
      doc_lines = [''BTN = '' @ [dquote] @ ''//old'' @ [dquote], button_line],
      wordAt = (\<lambda>p. if snd p \<le> 3 then Some ''BTN'' else None)\<rparr>"

definition hovered_at :: "int \<Rightarrow> provider" where
  "hovered_at t =
     new_provider\<lparr>metadataCache := Some [''BTN'' \<mapsto> button_descriptor],
       metadataCachePath := Some ''/w/.photos/element_selectors.json'', lastCacheTime := t,
       variableAssignmentCache := [''BTN'' \<mapsto> ''//button[1]''],
       variableAssignmentCachePath := Some ''/w/page.py'', variableAssignmentCacheTime := t,
       file_reads := [''/w/.photos/element_selectors.json'']\<rparr>"

text \<open>
  The occurrences of \<^verbatim>\<open>${name}\<close> on a line, written without the matcher. A name is
  \<^verbatim>\<open>[a-zA-Z_][a-zA-Z0-9_]*\<close>. An occurrence at offset \<open>i\<close> is the text \<^verbatim>\<open>${name}\<close> standing
  at \<open>i\<close>. Its span, braces included, runs from the offset \<open>i\<close> of the dollar sign to the
  offset just after the closing brace; both ends belong to it, as in the editor's ranges,
  where a position is a place between two characters.
\<close>

definition is_robot_name :: "string \<Rightarrow> bool" where
  "is_robot_name n = (n \<noteq> [] \<and> in_class RobotStart (hd n) \<and> (\<forall>c \<in> set (tl n). in_class RobotRest c))"

definition occurs_at :: "string \<Rightarrow> nat \<Rightarrow> string \<Rightarrow> bool" where
  "occurs_at line i n = (is_robot_name n \<and> take (length n + 3) (drop i line) = ''${'' @ n @ ''}'')"

definition covers :: "nat \<Rightarrow> string \<Rightarrow> nat \<Rightarrow> bool" where
  "covers i n c = (i \<le> c \<and> c \<le> i + length n + 3)"

text \<open>
  What a scan that starts at offset \<open>i\<close> has to answer for the cursor offset \<open>c\<close>: the
  name of the leftmost occurrence from \<open>i\<close> on whose span contains \<open>c\<close>, or none when
  there is no such occurrence.
\<close>

definition answers :: "string \<Rightarrow> nat \<Rightarrow> nat \<Rightarrow> string option \<Rightarrow> bool" where
  "answers line c i r =
     (case r of
        Some n \<Rightarrow>
          (\<exists>j\<ge>i. occurs_at line j n \<and> covers j n c \<and>
             (\<forall>j' n'. i \<le> j' \<and> occurs_at line j' n' \<and> covers j' n' c \<longrightarrow> j \<le> j'))
      | None \<Rightarrow> (\<forall>j n. i \<le> j \<and> occurs_at line j n \<longrightarrow> \<not> covers j n c))"

definition robot_document :: document where
  "robot_document =
     \<lparr>fsPath = ''/w/page.robot'', languageId = ''robotframework'',
      doc_lines = [''${A}${Bc} x''], wordAt = (\<lambda>p. None)\<rparr>"

text \<open>
  A run of whitespace, the three quote characters, and the part of a quoted pattern that
  follows the name: \<^verbatim>\<open>\s*=\s*q([^q]*)q\<close> for the quote character \<open>q\<close>.
\<close>

definition spaces :: "string \<Rightarrow> bool" where
  "spaces w = (\<forall>c \<in> set w. in_class Space c)"

definition is_quote :: "char \<Rightarrow> bool" where
  "is_quote q = (q = dquote \<or> q = squote \<or> q = bquote)"

definition quote_tail :: "char \<Rightarrow> node list" where
  "quote_tail q =
     [Star Space, One (Ch CHR ''=''), Star Space, One (Ch q), GOpen, Star (NotCh q), GClose,
      One (Ch q)]"

section \<open>Facts about the matcher\<close>

lemma rmatch_lits:
  "rmatch (map (\<lambda>c. One (Ch c)) n @ r) s k gh =
     (if take (length n) s = n then rmatch r (drop (length n) s) (k + length n) gh else None)"
proof (induction n arbitrary: s k)
  case Nil
  then show ?case by simp
next
  case (Cons c n)
  show ?case
  proof (cases s)
    case Nil
    then show ?thesis by simp
  next
    case (Cons x xs)
    then show ?thesis using Cons.IH [of xs "Suc k"] by auto
  qed
qed

lemma name_nodes_plain:
  "CHR ''$'' \<notin> set n \<Longrightarrow> name_nodes n = map (\<lambda>c. One (Ch c)) n"
  by (induction n) (auto simp: name_nodes_def)

lemma name_nodes_append: "name_nodes (a @ b) = name_nodes a @ name_nodes b"
  by (simp add: name_nodes_def)

lemma name_nodes_dollar: "name_nodes (CHR ''$'' # b) = Eoi # name_nodes b"
  by (simp add: name_nodes_def)

text \<open>A greedy star never gives a character back when what follows cannot start with one.\<close>

lemma star_skip:
  assumes "\<And>x xs k gh. in_class C x \<Longrightarrow> rmatch r (x # xs) k gh = None"
  shows "rmatch (Star C # r) s k gh =
           rmatch r (dropWhile (in_class C) s) (k + length (takeWhile (in_class C) s)) gh"
proof (induction s arbitrary: k)
  case Nil
  then show ?case by simp
next
  case (Cons x xs)
  show ?case
  proof (cases "in_class C x")
    case True
    have "rmatch r (x # xs) k gh = None" using assms True by simp
    then show ?thesis using True Cons.IH [of "Suc k"]
      by (simp split: option.splits)
  next
    case False
    then show ?thesis by simp
  qed
qed

lemma rmatch_empty_no_One:
  "rmatch r [] k gh = Some z \<Longrightarrow> One C \<notin> set r"
proof (induction r arbitrary: gh)
  case Nil
  then show ?case by simp
next
  case (Cons a r)
  then show ?case
    by (cases a; cases gh) (auto split: if_splits)
qed

text \<open>After \<^verbatim>\<open>$\<close> nothing is left to consume, so a pattern that goes on to ask for a character fails.\<close>

lemma rmatch_after_Eoi:
  "One C \<in> set rest \<Longrightarrow> rmatch (name_nodes a @ Eoi # rest) s k gh = None"
proof (induction a arbitrary: s k)
  case Nil
  then show ?case using rmatch_empty_no_One [of rest k gh _ C]
    by (cases "rmatch rest [] k gh") (auto simp: name_nodes_def)
next
  case (Cons c a)
  have ih: "\<And>s k. rmatch (name_nodes a @ Eoi # rest) s k gh = None"
    using Cons by simp
  show ?case
  proof (cases "c = CHR ''$''")
    case True
    then show ?thesis using ih by (simp add: name_nodes_def)
  next
    case False
    then show ?thesis using ih by (cases s) (auto simp: name_nodes_def)
  qed
qed

lemma rsearch_None: "(\<And>s k. rmatch r s k (k, k) = None) \<Longrightarrow> rsearch r s i = None"
  by (induction s arbitrary: i) auto

lemma quoteRegex_dollar:
  assumes "CHR ''$'' \<in> set n"
  shows "rmatch (quoteRegex q n) s k gh = None"
proof -
  obtain a b where n: "n = a @ CHR ''$'' # b" using assms by (meson split_list)
  have "quoteRegex q n = name_nodes a @ Eoi #
     (name_nodes b @ [Star Space, One (Ch CHR ''=''), Star Space, One (Ch q), GOpen,
        Star (NotCh q), GClose, One (Ch q)])"
    by (simp add: quoteRegex_def n name_nodes_append name_nodes_dollar)
  then show ?thesis using rmatch_after_Eoi [of "Ch CHR ''=''"] by simp
qed

lemma capture_quote_dollar: "CHR ''$'' \<in> set n \<Longrightarrow> capture (quoteRegex q n) line = None"
  by (simp add: capture_def rsearch_None quoteRegex_dollar)

lemma extractVariableValue_dollar:
  "CHR ''$'' \<in> set n \<Longrightarrow> extractVariableValue line n = None"
  by (simp add: extractVariableValue_def doubleQuoteRegex_def singleQuoteRegex_def
      backQuoteRegex_def capture_quote_dollar)

lemma robotValueRegex_dollar:
  assumes "CHR ''$'' \<in> set n"
  shows "rmatch (robotValueRegex n) s k gh = None"
proof -
  obtain a b where n: "n = a @ CHR ''$'' # b" using assms by (meson split_list)
  let ?rest = "name_nodes b @
    [One (Ch CHR ''}''), One Space, Star Space, GOpen, One Dot, LazyStar Dot, GClose, Eoi]"
  have e: "robotValueRegex n = One (Ch CHR ''$'') # One (Ch CHR ''{'') # (name_nodes a @ Eoi # ?rest)"
    by (simp add: robotValueRegex_def n name_nodes_append name_nodes_dollar)
  have z: "\<And>s k. rmatch (name_nodes a @ Eoi # ?rest) s k gh = None"
    using rmatch_after_Eoi [of "Ch CHR ''}''"] by simp
  show ?thesis unfolding e
    by (cases s; simp add: z) (cases "tl s"; auto simp add: z)
qed

lemma extractRobotVariableValue_dollar:
  "CHR ''$'' \<in> set n \<Longrightarrow> extractRobotVariableValue line n = None"
  by (simp add: extractRobotVariableValue_def capture_def rsearch_None robotValueRegex_dollar)

text \<open>A match never ends before it starts, and a pattern that asks for a character consumes one; so the loop over the matches of such a pattern ends.\<close>

lemma rmatch_mono:
  "rmatch r s k gh = Some (e, g, h) \<Longrightarrow> k \<le> e"
proof (induction r s k gh arbitrary: e g h rule: rmatch.induct)
  case (5 C r x xs k gh)
  show ?case
  proof (cases "in_class C x")
    case True
    show ?thesis
    proof (cases "rmatch (Star C # r) xs (Suc k) gh")
      case None
      then show ?thesis using 5 True by (simp del: in_class.simps)
    next
      case (Some z)
      then have "Suc k \<le> e" using 5 True by (cases z) (auto simp del: in_class.simps)
      then show ?thesis by simp
    qed
  next
    case False
    then show ?thesis using 5 by (simp del: in_class.simps)
  qed
next
  case (7 C r x xs k gh)
  show ?case
  proof (cases "rmatch r (x # xs) k gh")
    case None
    then have "Suc k \<le> e" using 7 by (auto split: if_splits simp del: in_class.simps)
    then show ?thesis by simp
  next
    case (Some z)
    then show ?thesis using 7 by (cases z) (auto simp del: in_class.simps)
  qed
qed (auto split: if_splits simp del: in_class.simps dest: Suc_leD)

lemma rmatch_progress:
  "rmatch r s k gh = Some (e, g, h) \<Longrightarrow> One D \<in> set r \<Longrightarrow> k < e"
proof (induction r s k gh arbitrary: e g h rule: rmatch.induct)
  case (3 C r x xs k gh)
  then have "rmatch r xs (Suc k) gh = Some (e, g, h)"
    by (auto split: if_splits simp del: in_class.simps)
  then show ?case using rmatch_mono by fastforce
next
  case (5 C r x xs k gh)
  show ?case
  proof (cases "in_class C x")
    case True
    show ?thesis
    proof (cases "rmatch (Star C # r) xs (Suc k) gh")
      case None
      then show ?thesis using 5 True by (simp del: in_class.simps)
    next
      case (Some z)
      then have "Suc k < e" using 5 True by (cases z) (auto simp del: in_class.simps)
      then show ?thesis by simp
    qed
  next
    case False
    then show ?thesis using 5 by (simp del: in_class.simps)
  qed
next
  case (7 C r x xs k gh)
  show ?case
  proof (cases "rmatch r (x # xs) k gh")
    case None
    then have "Suc k < e" using 7 by (auto split: if_splits simp del: in_class.simps)
    then show ?thesis by simp
  next
    case (Some z)
    then show ?thesis using 7 by (cases z) (auto simp del: in_class.simps)
  qed
qed (auto split: if_splits simp del: in_class.simps)

lemma exec_loop_ends:
  assumes "One D \<in> set r"
  shows "\<exists>ms. exec_loop r s i = Some ms"
proof (induction "length s" arbitrary: s i rule: less_induct)
  case less
  show ?case
  proof (cases s)
    case Nil
    have "rmatch r [] i (i, i) = None"
      using rmatch_empty_no_One [of r i "(i, i)" _ D] assms
      by (cases "rmatch r [] i (i, i)") auto
    then show ?thesis using Nil by simp
  next
    case (Cons x xs)
    show ?thesis
    proof (cases "rmatch r (x # xs) i (i, i)")
      case None
      then show ?thesis using less [of xs "Suc i"] Cons by simp
    next
      case (Some z)
      obtain e g h where z: "z = (e, g, h)" by (cases z)
      have "i < e" using rmatch_progress [OF _ assms] Some z by blast
      moreover have "length (drop (e - Suc i) xs) < length s" using Cons by simp
      ultimately show ?thesis using less [of "drop (e - Suc i) xs" e] Some z Cons by auto
    qed
  qed
qed

lemma robotVarRegex_loop_ends: "\<exists>ms. exec_loop robotVarRegex line 0 = Some ms"
  by (rule exec_loop_ends [of "Ch CHR ''}''"]) (simp add: robotVarRegex_def)

lemma assignmentRegex_loop_ends: "\<exists>ms. exec_loop assignmentRegex line 0 = Some ms"
  by (rule exec_loop_ends [of "Ch CHR ''=''"]) (simp add: assignmentRegex_def)

section \<open>Facts about the assignment index\<close>

lemma scan_line_alt:
  "scan_line isRobot line cache =
     fold (record_var (extractor isRobot) line) (matched_names (name_pattern isRobot) line) cache"
  by (simp add: scan_line_def extractor_def name_pattern_def)

lemma record_var_at:
  assumes "name \<notin> set object_prototype_props"
  shows "record_var ext line varName cache name =
           (if varName = name \<and> \<not> truthy_capture (cache name) \<and> truthy_capture (ext line name)
            then ext line name else cache name)"
  using assms
  by (cases "cache name"; cases "ext line name")
     (auto simp: record_var_def js_get_def split: option.splits)

lemma fold_record_var_at:
  assumes "name \<notin> set object_prototype_props"
  shows "fold (record_var ext line) names cache name =
           (if name \<in> set names \<and> \<not> truthy_capture (cache name) \<and> truthy_capture (ext line name)
            then ext line name else cache name)"
proof (induction names arbitrary: cache)
  case Nil
  then show ?case by simp
next
  case (Cons a names)
  show ?case
    using Cons.IH [of "record_var ext line a cache"] record_var_at [OF assms, of ext line a cache]
    by auto
qed

lemma scan_line_at:
  assumes "name \<notin> set object_prototype_props"
  shows "scan_line isRobot line cache name =
           (if \<not> truthy_capture (cache name) \<and> assigns isRobot name line
            then extractor isRobot line name else cache name)"
  using fold_record_var_at [OF assms] by (auto simp: scan_line_alt assigns_def)

text \<open>
  The scan of the lines, seen from one name that no object inherits: a value already held
  stays, and otherwise the first line that assigns the name decides.
\<close>

lemma fold_scan_line_at:
  assumes "name \<notin> set object_prototype_props"
  shows "fold (scan_line isRobot) ls cache name =
           (if truthy_capture (cache name) then cache name
            else (case find (assigns isRobot name) ls of
                    Some l \<Rightarrow> extractor isRobot l name
                  | None \<Rightarrow> cache name))"
proof (induction ls arbitrary: cache)
  case Nil
  then show ?case by simp
next
  case (Cons l ls)
  note step = scan_line_at [OF assms, of isRobot l cache]
  note ih = Cons.IH [of "scan_line isRobot l cache"]
  show ?case
  proof (cases "truthy_capture (cache name)")
    case True
    then show ?thesis using step ih by simp
  next
    case False
    show ?thesis
    proof (cases "assigns isRobot name l")
      case True
      then have "truthy_capture (extractor isRobot l name)" by (simp add: assigns_def)
      then show ?thesis using step ih False True by simp
    next
      case no: False
      then show ?thesis using step ih False by (simp split: option.splits)
    qed
  qed
qed

text \<open>
  The index of a document, when it is built anew: under a name that no object inherits it
  holds the value that the extractor gives on the first line that assigns the name, and
  nothing when no line assigns it. Later lines that assign the name are not looked at.
\<close>

lemma build_first_occurrence:
  assumes "name \<notin> set object_prototype_props" and "\<not> assignments_fresh now doc s"
  shows "fst (buildVariableAssignmentCache now doc s) name =
           (case find (assigns (languageId doc = ''robotframework'') name) (doc_lines doc) of
              Some l \<Rightarrow> extractor (languageId doc = ''robotframework'') l name
            | None \<Rightarrow> None)"
  using assms
    fold_scan_line_at [OF assms(1), of "languageId doc = ''robotframework''" "doc_lines doc" Map.empty]
  by (simp add: buildVariableAssignmentCache_def Let_def)

text \<open>
  The index a lookup works with is the cached one when that is fresh for the document, and
  the index of the document otherwise; either way it is the one the provider holds
  afterwards.
\<close>

lemma build_index:
  "fst (buildVariableAssignmentCache now doc s) =
     (if assignments_fresh now doc s then variableAssignmentCache s else index_of doc)"
  by (simp add: buildVariableAssignmentCache_def index_of_def Let_def)

lemma build_keeps:
  "variableAssignmentCache (snd (buildVariableAssignmentCache now doc s)) =
     fst (buildVariableAssignmentCache now doc s)"
  by (simp add: buildVariableAssignmentCache_def Let_def)

lemma findVariableAssignmentEfficient_snd:
  "snd (findVariableAssignmentEfficient now doc name s) = snd (buildVariableAssignmentCache now doc s)"
  by (simp add: findVariableAssignmentEfficient_def split: prod.splits)

lemma index_of_first_occurrence:
  assumes "name \<notin> set object_prototype_props"
  shows "index_of doc name =
           (case find (assigns (languageId doc = ''robotframework'') name) (doc_lines doc) of
              Some l \<Rightarrow> extractor (languageId doc = ''robotframework'') l name
            | None \<Rightarrow> None)"
  using fold_scan_line_at [OF assms, of "languageId doc = ''robotframework''" "doc_lines doc" Map.empty]
  by (simp add: index_of_def)

lemma findVariableAssignmentEfficient_fst:
  "fst (findVariableAssignmentEfficient now doc name s) =
     or_null (js_get (fst (buildVariableAssignmentCache now doc s)) name)"
  by (simp add: findVariableAssignmentEfficient_def split: prod.splits)

lemma dollar_not_inherited: "CHR ''$'' \<in> set name \<Longrightarrow> name \<notin> set object_prototype_props"
  by (auto simp: object_prototype_props_def)

lemma extractor_dollar: "CHR ''$'' \<in> set name \<Longrightarrow> extractor isRobot line name = None"
  by (simp add: extractor_def extractVariableValue_dollar extractRobotVariableValue_dollar)

lemma findVariableAssignment_lines_dollar:
  "CHR ''$'' \<in> set name \<Longrightarrow> findVariableAssignment_lines ls name = None"
  by (induction ls) (simp_all add: extractVariableValue_dollar)

lemma findVariableAssignment_lines_find:
  "findVariableAssignment_lines ls name =
     (case find (\<lambda>l. truthy_capture (extractVariableValue l name)) ls of
        Some l \<Rightarrow> extractVariableValue l name
      | None \<Rightarrow> None)"
  by (induction ls) (simp_all add: Let_def)

lemma find_conj_first:
  assumes "\<And>l. find P ls = Some l \<Longrightarrow> Q l"
  shows "find (\<lambda>l. Q l \<and> P l) ls = find P ls"
  using assms
proof (induction ls)
  case Nil
  then show ?case by simp
next
  case (Cons a ls)
  then show ?case by (cases "P a") auto
qed

section \<open>Facts about the hover\<close>

lemma provideHover_lookup_alt:
  "provideHover_lookup h now1 now2 doc variableName root s =
     (if \<not> existsSync h (metadata_path h root) then (Inr None, s)
      else (case loadMetadata h now1 (metadata_path h root) s of
              (Inl e, s1) \<Rightarrow> (Inl e, s1)
            | (Inr None, s1) \<Rightarrow> (Inr None, s1)
            | (Inr (Some metadata), s1) \<Rightarrow>
                if metadata_get metadata variableName = ElUndefined then (Inr None, s1)
                else provideHover_check h now2 doc variableName (photos_dir h root)
                       (metadata_get metadata variableName) s1))"
  by (simp add: provideHover_lookup_def metadata_path_def photos_dir_def Let_def
      split: prod.splits sum.splits option.splits)

lemma provideHover_fst:
  "fst (provideHover h now1 now2 doc position s) =
     (case fst (provideHover_try h now1 now2 doc position s) of Inr r \<Rightarrow> r | Inl e \<Rightarrow> None)"
  by (simp add: provideHover_def split: prod.splits sum.splits)

lemma provideHover_check_fst_none:
  "\<not> js_truthy (fst (findVariableAssignmentEfficient now2 doc name s)) \<or>
   \<not> hasMatchingValue element (fst (findVariableAssignmentEfficient now2 doc name s)) \<Longrightarrow>
   fst (provideHover_check h now2 doc name dir element s) = Inr None"
  by (auto simp: provideHover_check_def split: prod.splits)

lemma hasMatchingValue_inherited [simp]: "\<not> hasMatchingValue ElInherited v"
  by (simp add: hasMatchingValue_def)

lemma provideHover_show_fst_none:
  "el_field photo element = None \<or>
   (\<exists>ph. el_field photo element = Some ph \<and> \<not> existsSync h (path_join h dir ph)) \<Longrightarrow>
   fst (provideHover_show h dir element s) \<in> {Inr None, Inl TypeError}"
  by (auto simp: provideHover_show_def Let_def)

lemma loadMetadata_keeps_index:
  "variableAssignmentCachePath (snd (loadMetadata h now p s)) = variableAssignmentCachePath s \<and>
   variableAssignmentCacheTime (snd (loadMetadata h now p s)) = variableAssignmentCacheTime s \<and>
   variableAssignmentCacheTimeout (snd (loadMetadata h now p s)) = variableAssignmentCacheTimeout s"
  by (auto simp: loadMetadata_def loadMetadata_try_def readFileSync_def JSON_parse_def Let_def
      split: prod.splits sum.splits option.splits fnode.splits)

lemma assignments_fresh_loadMetadata:
  "assignments_fresh now2 doc (snd (loadMetadata h now p s)) = assignments_fresh now2 doc s"
  by (simp add: assignments_fresh_def loadMetadata_keeps_index)

lemma loadMetadata_loads:
  assumes "\<not> metadata_fresh now p s" and "files h p = Some (Content raw)"
    and "json_parse h raw = Some md"
  shows "fst (loadMetadata h now p s) = Inr (Some md)"
  using assms
  by (simp add: loadMetadata_def loadMetadata_try_def existsSync_def readFileSync_def
      JSON_parse_def Let_def)

lemma loadMetadata_keeps_cache:
  "variableAssignmentCache (snd (loadMetadata h now p s)) = variableAssignmentCache s"
  by (auto simp: loadMetadata_def loadMetadata_try_def readFileSync_def JSON_parse_def Let_def
      split: prod.splits sum.splits option.splits fnode.splits)

lemma loadMetadata_cached:
  "metadata_fresh now p s \<Longrightarrow> loadMetadata h now p s = (Inr (metadataCache s), s)"
  by (simp add: loadMetadata_def)

lemma button_line_names: "matched_names assignmentRegex button_line = [''BTN'']"
  by code_simp

lemma button_line_value: "extractVariableValue button_line ''BTN'' = Some ''//button[1]''"
  by code_simp

lemma BTN_word: "regex_test wordRegex ''BTN''"
  by code_simp

lemma find_first_value:
  assumes "\<forall>l \<in> set before. P l \<longrightarrow> f l = c" and "P x" and "f x = c"
  shows "\<exists>l. find P (before @ x # rest) = Some l \<and> f l = c"
  using assms by (induction before) auto

lemma button_host_paths:
  "workspaceFolder (button_host table png) = Some ''/w'' \<and>
   photos_dir (button_host table png) ''/w'' = ''/w/.photos'' \<and>
   metadata_path (button_host table png) ''/w'' = ''/w/.photos/element_selectors.json'' \<and>
   path_join (button_host table png) ''/w/.photos'' ''btn.png'' = ''/w/.photos/btn.png'' \<and>
   files (button_host table png) ''/w/.photos/element_selectors.json'' = Some (Content ''{..}'') \<and>
   json_parse (button_host table png) ''{..}'' = Some table \<and>
   files (button_host table png) ''/w/.photos/btn.png'' = (if png then Some (Content ''png'') else None)"
  by (simp add: button_host_def photos_dir_def metadata_path_def)

lemma button_document_cursor:
  "getVariableAtPosition button_document (0, 1) = Inr (Some ''BTN'')"
  using BTN_word by (simp add: getVariableAtPosition_def lineAt_def button_document_def)

lemma button_host_loads:
  "fst (loadMetadata (button_host table png) 0 ''/w/.photos/element_selectors.json'' new_provider) =
     Inr (Some table)"
  using loadMetadata_loads [of 0 "''/w/.photos/element_selectors.json''" new_provider
      "button_host table png" "''{..}''" table] button_host_paths [of table png]
  by (simp add: metadata_fresh_def new_provider_def)

lemma button_document_value:
  "fst (findVariableAssignmentEfficient 0 button_document ''BTN''
     (snd (loadMetadata h 0 p new_provider))) = Str ''//button[1]''"
proof -
  have np: "''BTN'' \<notin> set object_prototype_props"
    by (simp add: object_prototype_props_def)
  have nf: "\<not> assignments_fresh 0 button_document (snd (loadMetadata h 0 p new_provider))"
    by (simp add: assignments_fresh_loadMetadata) (simp add: assignments_fresh_def new_provider_def)
  have a: "assigns False ''BTN'' button_line"
    by (simp add: assigns_def name_pattern_def extractor_def button_line_names button_line_value)
  show ?thesis
    using build_first_occurrence [OF np nf] a
    by (simp add: findVariableAssignmentEfficient_fst js_get_def or_null_def button_document_def
        extractor_def button_line_value)
qed

text \<open>What a hover over \<open>button_document\<close> at time \<open>t\<close> leaves of a new provider.\<close>

lemma first_hover_state:
  "snd (provideHover (button_host [''BTN'' \<mapsto> button_descriptor] True) t t button_document (0, 1)
         new_provider) = hovered_at t"
proof -
  let ?t = "[''BTN'' \<mapsto> button_descriptor]"
  let ?h = "button_host ?t True"
  note p = button_host_paths [of ?t True]
  have i: "scan_line False button_line Map.empty = [''BTN'' \<mapsto> ''//button[1]'']"
    by (simp add: scan_line_def button_line_names record_var_def js_get_def button_line_value
        object_prototype_props_def)
  show ?thesis
    using p button_document_cursor BTN_word
    by (simp add: provideHover_def provideHover_try_def provideHover_lookup_alt existsSync_def
        loadMetadata_def metadata_fresh_def loadMetadata_try_def readFileSync_def JSON_parse_def
        metadata_get_def provideHover_check_def findVariableAssignmentEfficient_def
        buildVariableAssignmentCache_def assignments_fresh_def Let_def i or_null_def js_get_def
        hasMatchingValue_def provideHover_show_def button_descriptor_def hovered_at_def
        new_provider_def button_document_def getVariableAtPosition_def lineAt_def)
qed

section \<open>Facts about the variable pattern of Robot Framework\<close>

lemma RobotRest_not_brace: "in_class RobotRest x \<Longrightarrow> x \<noteq> CHR ''}'' \<and> x \<noteq> CHR ''$'' \<and> x \<noteq> CHR ''{''"
  by (auto simp: lower_chars_def upper_chars_def digit_chars_def)

lemma RobotStart_Rest: "in_class RobotStart x \<Longrightarrow> in_class RobotRest x"
  by (auto simp: lower_chars_def upper_chars_def digit_chars_def)

lemma robot_close:
  "rmatch [GClose, One (Ch CHR ''}'')] d k (g, h) =
     (case d of [] \<Rightarrow> None | y # rest \<Rightarrow> if y = CHR ''}'' then Some (Suc k, g, k) else None)"
  by (cases d) simp_all

lemma robot_tail:
  "rmatch (Star RobotRest # [GClose, One (Ch CHR ''}'')]) s k (g, h) =
     (case dropWhile (in_class RobotRest) s of
        [] \<Rightarrow> None
      | y # rest \<Rightarrow> if y = CHR ''}''
          then Some (Suc (k + length (takeWhile (in_class RobotRest) s)), g,
                     k + length (takeWhile (in_class RobotRest) s))
          else None)"
proof -
  have "rmatch [GClose, One (Ch CHR ''}'')] (x # xs) k gh = None" if "in_class RobotRest x" for x xs k gh
    using RobotRest_not_brace [OF that] by (cases gh) simp
  then have "rmatch (Star RobotRest # [GClose, One (Ch CHR ''}'')]) s k (g, h) =
      rmatch [GClose, One (Ch CHR ''}'')] (dropWhile (in_class RobotRest) s)
        (k + length (takeWhile (in_class RobotRest) s)) (g, h)"
    by (rule star_skip)
  then show ?thesis
    by (simp only: robot_close)
qed

lemma robot_match_short:
  "length s < 3 \<Longrightarrow> rmatch robotVarRegex s k (g0, h0) = None"
proof -
  assume "length s < 3"
  then consider "s = []" | a where "s = [a]" | a b where "s = [a, b]"
    by (cases s; cases "tl s"; cases "tl (tl s)") auto
  then show ?thesis by cases (simp_all add: robotVarRegex_def)
qed

lemma robot_match:
  "rmatch robotVarRegex (a # b # x # xs) k (g0, h0) =
     (if a = CHR ''$'' \<and> b = CHR ''{'' \<and> in_class RobotStart x
      then (case dropWhile (in_class RobotRest) xs of
              [] \<Rightarrow> None
            | y # rest \<Rightarrow> if y = CHR ''}''
                then Some (k + length (takeWhile (in_class RobotRest) xs) + 4, k + 2,
                           k + length (takeWhile (in_class RobotRest) xs) + 3)
                else None)
      else None)"
proof -
  define D where "D = dropWhile (in_class RobotRest) xs"
  define W where "W = length (takeWhile (in_class RobotRest) xs)"
  have step: "rmatch robotVarRegex (a # b # x # xs) k (g0, h0) =
      (if a = CHR ''$'' \<and> b = CHR ''{'' \<and> in_class RobotStart x
       then rmatch (Star RobotRest # [GClose, One (Ch CHR ''}'')]) xs (Suc (Suc (Suc k)))
              (Suc (Suc k), h0)
       else None)"
    by (simp add: robotVarRegex_def del: in_class.simps(5))
  have t: "rmatch (Star RobotRest # [GClose, One (Ch CHR ''}'')]) xs K (G, h0) =
      (case D of [] \<Rightarrow> None
       | y # rest \<Rightarrow> if y = CHR ''}'' then Some (Suc (K + W), G, K + W) else None)" for K G
    by (simp only: robot_tail D_def W_def)
  have "rmatch robotVarRegex (a # b # x # xs) k (g0, h0) =
     (if a = CHR ''$'' \<and> b = CHR ''{'' \<and> in_class RobotStart x
      then (case D of
              [] \<Rightarrow> None
            | y # rest \<Rightarrow> if y = CHR ''}'' then Some (k + W + 4, k + 2, k + W + 3) else None)
      else None)"
    unfolding step t by (cases D) simp_all
  then show ?thesis by (simp only: D_def W_def)
qed

lemma is_robot_name_Cons:
  "is_robot_name (x # n') = (in_class RobotStart x \<and> (\<forall>c \<in> set n'. in_class RobotRest c))"
  by (simp add: is_robot_name_def del: in_class.simps)

lemma robot_match_occurs:
  assumes "rmatch robotVarRegex s k (g0, h0) = Some (e, g, h)"
  shows "\<exists>n rest. s = ''${'' @ n @ ''}'' @ rest \<and> is_robot_name n \<and>
           e = k + length n + 3 \<and> g = k + 2 \<and> h = k + 2 + length n"
proof -
  have "\<not> length s < 3" using assms robot_match_short [of s k g0 h0] by auto
  then obtain a b x xs where s: "s = a # b # x # xs"
    by (cases s; cases "tl s"; cases "tl (tl s)") auto
  let ?w = "takeWhile (in_class RobotRest) xs"
  let ?d = "dropWhile (in_class RobotRest) xs"
  note m = assms [unfolded s robot_match]
  have ab: "a = CHR ''$''" "b = CHR ''{''" and x: "in_class RobotStart x"
    using m by (auto split: if_splits simp del: in_class.simps)
  then have m2: "(case ?d of [] \<Rightarrow> None
       | y # rest \<Rightarrow> if y = CHR ''}'' then Some (k + length ?w + 4, k + 2, k + length ?w + 3)
           else None) = Some (e, g, h)"
    using m by (simp del: in_class.simps)
  then obtain rest where d: "?d = CHR ''}'' # rest"
    and r: "e = k + length ?w + 4" "g = k + 2" "h = k + length ?w + 3"
    by (cases ?d) (auto split: if_splits simp del: in_class.simps dropWhile_eq_Nil_conv)
  have "xs = ?w @ CHR ''}'' # rest" using d by (metis takeWhile_dropWhile_id)
  then have "s = ''${'' @ (x # ?w) @ ''}'' @ rest" using s ab by simp
  moreover have "is_robot_name (x # ?w)"
    using x by (auto simp: is_robot_name_Cons dest: set_takeWhileD simp del: in_class.simps)
  ultimately show ?thesis using r by (intro exI [of _ "x # ?w"] exI [of _ rest]) simp
qed

lemma occurs_robot_match:
  assumes "is_robot_name n"
  shows "rmatch robotVarRegex (''${'' @ n @ ''}'' @ rest) k (g0, h0) =
           Some (k + length n + 3, k + 2, k + 2 + length n)"
proof -
  obtain x n' where n: "n = x # n'" using assms by (cases n) (auto simp: is_robot_name_def)
  have x: "in_class RobotStart x" and all: "\<forall>c \<in> set n'. in_class RobotRest c"
    using assms n by (auto simp: is_robot_name_Cons simp del: in_class.simps)
  have nb: "\<not> in_class RobotRest CHR ''}''" using RobotRest_not_brace by blast
  have t: "takeWhile (in_class RobotRest) (n' @ CHR ''}'' # rest) = n'"
    using all nb by (simp add: takeWhile_tail del: in_class.simps)
  have d: "dropWhile (in_class RobotRest) (n' @ CHR ''}'' # rest) = CHR ''}'' # rest"
    using all nb by (simp add: dropWhile_append3 del: in_class.simps)
  show ?thesis using x t d by (simp add: robot_match n del: in_class.simps)
qed

lemma is_robot_name_chars: "is_robot_name n \<Longrightarrow> c \<in> set n \<Longrightarrow> in_class RobotRest c"
  by (cases n) (auto simp: is_robot_name_Cons RobotStart_Rest simp del: in_class.simps)

lemma occurs_at_drop:
  assumes "occurs_at line j n"
  shows "drop j line = ''${'' @ n @ ''}'' @ drop (j + length n + 3) line"
proof -
  have t: "take (length n + 3) (drop j line) = ''${'' @ n @ ''}''"
    using assms by (simp add: occurs_at_def)
  have "drop j line = take (length n + 3) (drop j line) @ drop (length n + 3) (drop j line)"
    by (simp only: append_take_drop_id)
  also have "\<dots> = (''${'' @ n @ ''}'') @ drop (length n + 3 + j) line"
    by (simp only: t drop_drop)
  finally show ?thesis by (simp add: ac_simps)
qed

lemma occurs_at_bound:
  assumes "occurs_at line j n"
  shows "j + length n + 3 \<le> length line"
proof -
  have "length (take (length n + 3) (drop j line)) = length n + 3"
    using assms by (simp add: occurs_at_def)
  then show ?thesis by simp
qed

lemma occurs_atI:
  "is_robot_name n \<Longrightarrow> drop j line = ''${'' @ n @ ''}'' @ rest \<Longrightarrow> occurs_at line j n"
proof -
  assume n: "is_robot_name n" and d: "drop j line = ''${'' @ n @ ''}'' @ rest"
  have "take (length n + 3) ((''${'' @ n @ ''}'') @ rest) = ''${'' @ n @ ''}''"
    by (subst take_append) simp
  then show ?thesis using n d by (simp add: occurs_at_def)
qed

lemma occurs_at_match:
  assumes "occurs_at line j n"
  shows "rmatch robotVarRegex (drop j line) j (j, j) = Some (j + length n + 3, j + 2, j + 2 + length n)"
  using assms occurs_robot_match [of n "drop (j + length n + 3) line" j j j]
  by (simp add: occurs_at_drop [OF assms] occurs_at_def)

lemma match_occurs_at:
  assumes "rmatch robotVarRegex (drop j line) j (j, j) = Some (e, g, h)"
  shows "\<exists>n. occurs_at line j n \<and> e = j + length n + 3 \<and> g = j + 2 \<and> h = j + 2 + length n"
proof -
  from robot_match_occurs [OF assms] obtain n rest where
    d: "drop j line = ''${'' @ n @ ''}'' @ rest" and n: "is_robot_name n"
    and r: "e = j + length n + 3" "g = j + 2" "h = j + 2 + length n"
    by blast
  have "occurs_at line j n" using n d by (rule occurs_atI)
  then show ?thesis using r by blast
qed

lemma occurs_at_unique:
  assumes "occurs_at line j n" and "occurs_at line j n'"
  shows "n = n'"
proof -
  have "length n = length n'"
    using occurs_at_match [OF assms(1)] occurs_at_match [OF assms(2)] by simp
  then show ?thesis using assms by (simp add: occurs_at_def)
qed

lemma occurs_at_not_inside:
  assumes o: "occurs_at line i n" and lt: "i < j" "j < i + length n + 3"
  shows "\<not> occurs_at line j n'"
proof
  assume o': "occurs_at line j n'"
  define B where "B = ''{'' @ n @ ''}''"
  define rest where "rest = drop (i + length n + 3) line"
  have lB: "length B = length n + 2" by (simp add: B_def)
  have di: "drop i line = CHR ''$'' # B @ rest"
    using occurs_at_drop [OF o] by (simp add: B_def rest_def)
  have "drop j line = drop (j - i) (drop i line)" using lt by simp
  also have "\<dots> = drop (j - Suc i) (B @ rest)"
    using lt di by (simp add: drop_Cons')
  also have "\<dots> = drop (j - Suc i) B @ rest"
    using lt lB by simp
  finally have dj: "drop j line = drop (j - Suc i) B @ rest" .
  have ne: "drop (j - Suc i) B \<noteq> []" using lt lB by simp
  then have "hd (drop j line) \<in> set B"
    using dj by (metis hd_append2 hd_in_set in_set_dropD)
  moreover have "hd (drop j line) = CHR ''$''"
    using occurs_at_drop [OF o'] by simp
  moreover have "CHR ''$'' \<notin> set B"
    using is_robot_name_chars [of n "CHR ''$''"] o RobotRest_not_brace [of "CHR ''$''"]
    by (auto simp: B_def occurs_at_def simp del: in_class.simps)
  ultimately show False by simp
qed

lemma substring_drop:
  "drop i line = a @ n @ rest \<Longrightarrow> substring line (i + length a) (i + length a + length n) = n"
proof -
  assume d: "drop i line = a @ n @ rest"
  have "drop (i + length a) line = drop (length a) (drop i line)" by (simp add: add.commute)
  then show ?thesis using d by (simp add: substring_def)
qed

lemma answers_end: "answers line c (length line) None"
  using occurs_at_bound [of line] by (fastforce simp: answers_def)

lemma answers_here:
  assumes "occurs_at line i n" and "covers i n c"
  shows "answers line c i (Some n)"
  using assms by (auto simp: answers_def)

lemma answers_weaken:
  assumes r: "answers line c k r" and ik: "i \<le> k"
    and gap: "\<And>j n. i \<le> j \<Longrightarrow> j < k \<Longrightarrow> occurs_at line j n \<Longrightarrow> \<not> covers j n c"
  shows "answers line c i r"
proof (cases r)
  case None
  show ?thesis unfolding answers_def None
  proof (simp, intro allI impI)
    fix j n assume a: "i \<le> j \<and> occurs_at line j n"
    show "\<not> covers j n c"
    proof (cases "j < k")
      case True
      then show ?thesis using gap a by blast
    next
      case False
      then show ?thesis using r a by (auto simp: answers_def None)
    qed
  qed
next
  case (Some n)
  from r obtain j where j: "k \<le> j" "occurs_at line j n" "covers j n c"
    and least: "\<And>j' n'. k \<le> j' \<Longrightarrow> occurs_at line j' n' \<Longrightarrow> covers j' n' c \<Longrightarrow> j \<le> j'"
    by (auto simp: answers_def Some)
  have "j \<le> j'" if "i \<le> j'" "occurs_at line j' n'" "covers j' n' c" for j' n'
  proof (cases "j' < k")
    case True
    then show ?thesis using gap that by blast
  next
    case False
    then show ?thesis using least that by simp
  qed
  then show ?thesis using j ik unfolding answers_def Some by (auto intro!: exI [of _ j])
qed

lemma robot_scan:
  assumes "i \<le> length line"
  shows "\<exists>ms. exec_loop robotVarRegex (drop i line) i = Some ms \<and>
           answers line c i (first_covering line c ms)"
  using assms
proof (induction "length line - i" arbitrary: i rule: less_induct)
  case less
  show ?case
  proof (cases "i = length line")
    case True
    have "rmatch robotVarRegex [] i (i, i) = None" by (simp add: robot_match_short)
    then have "exec_loop robotVarRegex (drop i line) i = Some []" using True by simp
    then show ?thesis using answers_end [of line c] True by simp
  next
    case False
    then have lt: "i < length line" using less.prems by simp
    define x where "x = line ! i"
    define xs where "xs = drop (Suc i) line"
    have s: "drop i line = x # xs" using lt by (simp add: x_def xs_def Cons_nth_drop_Suc)
    show ?thesis
    proof (cases "rmatch robotVarRegex (drop i line) i (i, i)")
      case None
      have no: "\<not> occurs_at line i n" for n using occurs_at_match [of line i n] None by auto
      have "length line - Suc i < length line - i" and "Suc i \<le> length line"
        using lt by arith+
      from less.hyps [OF this] obtain ms where
        ms: "exec_loop robotVarRegex (drop (Suc i) line) (Suc i) = Some ms"
        and a: "answers line c (Suc i) (first_covering line c ms)"
        by blast
      have e: "exec_loop robotVarRegex (drop i line) i = Some ms"
        using None ms by (simp add: s) (simp add: xs_def)
      have "answers line c i (first_covering line c ms)"
      proof (rule answers_weaken [OF a])
        show "i \<le> Suc i" by simp
      next
        fix j n assume "i \<le> j" "j < Suc i" "occurs_at line j n"
        then show "\<not> covers j n c" using no [of n] by (cases "j = i") auto
      qed
      then show ?thesis using e by blast
    next
      case (Some z)
      obtain e g h where z: "z = (e, g, h)" by (cases z)
      from match_occurs_at [of i line e g h] Some z obtain n where
        o: "occurs_at line i n" and r: "e = i + length n + 3" "g = i + 2" "h = i + 2 + length n"
        by auto
      have ele: "e \<le> length line" using occurs_at_bound [OF o] r by simp
      have "e - Suc i + Suc i = e" using r by arith
      then have d: "drop (e - Suc i) xs = drop e line"
        unfolding xs_def drop_drop by (rule arg_cong)
      have "length line - e < length line - i"
        using lt r by arith
      from less.hyps [OF this ele] obtain ms where
        ms: "exec_loop robotVarRegex (drop e line) e = Some ms"
        and a: "answers line c e (first_covering line c ms)"
        by blast
      have ex: "exec_loop robotVarRegex (drop i line) i = Some ((i, e, g, h) # ms)"
        using Some z ms d r by (simp add: s [symmetric]) (simp add: s)
      have sub: "substring line g h = n"
        using substring_drop [of i line "''${''" n "''}'' @ drop (i + length n + 3) line"]
          occurs_at_drop [OF o] r by simp
      show ?thesis
      proof (cases "covers i n c")
        case True
        then have "first_covering line c ((i, e, g, h) # ms) = Some n"
          using sub r by (simp add: covers_def)
        then show ?thesis using ex answers_here [OF o True] by simp
      next
        case False
        then have f: "first_covering line c ((i, e, g, h) # ms) = first_covering line c ms"
          using r by (auto simp: covers_def)
        have "answers line c i (first_covering line c ms)"
        proof (rule answers_weaken [OF a])
          show "i \<le> e" using r by simp
        next
          fix j n' assume j: "i \<le> j" "j < e" "occurs_at line j n'"
          show "\<not> covers j n' c"
          proof (cases "j = i")
            case True
            then have "n' = n" using occurs_at_unique [OF o] j by simp
            then show ?thesis using False True by simp
          next
            case ne: False
            then show ?thesis using occurs_at_not_inside [OF o, of j n'] j r by simp
          qed
        qed
        then show ?thesis using ex f by simp
      qed
    qed
  qed
qed

lemma robot_document_values:
  "getVariableAtPosition robot_document (0, 4) = Inr (Some ''A'') \<and>
   getVariableAtPosition robot_document (0, 9) = Inr (Some ''Bc'') \<and>
   getVariableAtPosition robot_document (0, 10) = Inr None"
  by code_simp

section \<open>Facts about the quoted patterns\<close>

lemma quote_not_space: "is_quote q \<Longrightarrow> \<not> in_class Space q"
  by (auto simp: is_quote_def dquote_def squote_def bquote_def space_chars_def)

lemma eq_not_space: "\<not> in_class Space CHR ''=''"
  by (simp add: space_chars_def)

lemma takeWhile_spaces: "spaces w \<Longrightarrow> \<not> in_class Space x \<Longrightarrow>
    takeWhile (in_class Space) (w @ x # rest) = w \<and> dropWhile (in_class Space) (w @ x # rest) = x # rest"
  by (simp add: spaces_def takeWhile_tail dropWhile_append3 del: in_class.simps)

lemma tail_star1:
  "rmatch (Star Space # One (Ch CHR ''='') # r) s k gh =
     rmatch (One (Ch CHR ''='') # r) (dropWhile (in_class Space) s)
       (k + length (takeWhile (in_class Space) s)) gh"
proof (rule star_skip)
  fix x xs k gh
  assume "in_class Space x"
  then have "x \<noteq> CHR ''=''" using eq_not_space by auto
  then show "rmatch (One (Ch CHR ''='') # r) (x # xs) k gh = None" by simp
qed

lemma tail_star2:
  assumes "is_quote q"
  shows "rmatch (Star Space # One (Ch q) # r) s k gh =
     rmatch (One (Ch q) # r) (dropWhile (in_class Space) s)
       (k + length (takeWhile (in_class Space) s)) gh"
proof (rule star_skip)
  fix x xs k gh
  assume "in_class Space x"
  then have "x \<noteq> q" using quote_not_space [OF assms] by auto
  then show "rmatch (One (Ch q) # r) (x # xs) k gh = None" by simp
qed

lemma tail_star3:
  "rmatch (Star (NotCh q) # [GClose, One (Ch q)]) s k (g, h) =
     rmatch [GClose, One (Ch q)] (dropWhile (in_class (NotCh q)) s)
       (k + length (takeWhile (in_class (NotCh q)) s)) (g, h)"
proof (rule star_skip)
  fix x xs k gh
  assume "in_class (NotCh q) x"
  then show "rmatch [GClose, One (Ch q)] (x # xs) k gh = None" by (cases gh) simp
qed

lemma quote_close:
  "rmatch [GClose, One (Ch q)] d k (g, h) =
     (case d of [] \<Rightarrow> None | y # rest \<Rightarrow> if y = q then Some (Suc k, g, k) else None)"
  by (cases d) simp_all

lemma quote_tail_complete:
  assumes q: "is_quote q" and w1: "spaces w1" and w2: "spaces w2" and v: "q \<notin> set v"
  shows "rmatch (quote_tail q) (w1 @ ''='' @ w2 @ [q] @ v @ [q] @ post) k (g0, h0) =
           Some (k + length w1 + length w2 + length v + 3,
                 k + length w1 + length w2 + 2,
                 k + length w1 + length w2 + length v + 2)"
proof -
  have nq: "\<not> in_class Space q" using q by (rule quote_not_space)
  have s1: "takeWhile (in_class Space) (w1 @ CHR ''='' # w2 @ q # v @ q # post) = w1"
    "dropWhile (in_class Space) (w1 @ CHR ''='' # w2 @ q # v @ q # post) = CHR ''='' # w2 @ q # v @ q # post"
    using takeWhile_spaces [OF w1 eq_not_space] by simp_all
  have s2: "takeWhile (in_class Space) (w2 @ q # v @ q # post) = w2"
    "dropWhile (in_class Space) (w2 @ q # v @ q # post) = q # v @ q # post"
    using takeWhile_spaces [OF w2 nq] by simp_all
  have s3: "takeWhile (in_class (NotCh q)) (v @ q # post) = v"
    "dropWhile (in_class (NotCh q)) (v @ q # post) = q # post"
    using v by (auto simp: takeWhile_tail dropWhile_append3)
  show ?thesis
    unfolding quote_tail_def
    by (simp add: tail_star1 s1 tail_star2 [OF q] s2 tail_star3 s3 quote_close
        del: in_class.simps(3) rmatch.simps(5))
qed

lemma quote_tail_sound:
  assumes q: "is_quote q" and m: "rmatch (quote_tail q) s k (g0, h0) = Some (e, g, h)"
  shows "\<exists>w1 w2 v post. s = w1 @ ''='' @ w2 @ [q] @ v @ [q] @ post \<and> spaces w1 \<and> spaces w2 \<and>
           q \<notin> set v \<and> g = k + length w1 + length w2 + 2 \<and> h = g + length v"
proof -
  define w1 where "w1 = takeWhile (in_class Space) s"
  define d1 where "d1 = dropWhile (in_class Space) s"
  have s: "s = w1 @ d1" by (simp add: w1_def d1_def)
  have sp1: "spaces w1" by (auto simp: spaces_def w1_def dest: set_takeWhileD)
  have m1: "rmatch (One (Ch CHR ''='') # tl (tl (quote_tail q))) d1 (k + length w1) (g0, h0) =
      Some (e, g, h)"
    using m by (simp add: quote_tail_def tail_star1 w1_def d1_def del: rmatch.simps(5))
  then obtain s2 where d1: "d1 = CHR ''='' # s2"
    by (cases d1) (auto split: if_splits)
  define w2 where "w2 = takeWhile (in_class Space) s2"
  define d2 where "d2 = dropWhile (in_class Space) s2"
  have s2: "s2 = w2 @ d2" by (simp add: w2_def d2_def)
  have sp2: "spaces w2" by (auto simp: spaces_def w2_def dest: set_takeWhileD)
  have m2: "rmatch (One (Ch q) # [GOpen, Star (NotCh q), GClose, One (Ch q)]) d2
      (Suc (k + length w1) + length w2) (g0, h0) = Some (e, g, h)"
    using m1 by (simp add: d1 quote_tail_def tail_star2 [OF q] w2_def d2_def del: rmatch.simps(5))
  then obtain s3 where d2: "d2 = q # s3"
    by (cases d2) (auto split: if_splits)
  define v where "v = takeWhile (in_class (NotCh q)) s3"
  define d3 where "d3 = dropWhile (in_class (NotCh q)) s3"
  have s3: "s3 = v @ d3" by (simp add: v_def d3_def)
  have vq: "q \<notin> set v" by (auto simp: v_def dest: set_takeWhileD)
  define K where "K = Suc (Suc (k + length w1) + length w2)"
  have m3: "rmatch [GClose, One (Ch q)] d3 (K + length v) (K, h0) = Some (e, g, h)"
    using m2 by (simp add: d2 tail_star3 v_def d3_def K_def del: rmatch.simps(5))
  then obtain post where d3: "d3 = q # post" and r: "g = K" "h = K + length v"
    by (cases d3) (auto simp: quote_close split: if_splits)
  have "s = w1 @ ''='' @ w2 @ [q] @ v @ [q] @ post"
    using s d1 s2 d2 s3 d3 by simp
  then show ?thesis using sp1 sp2 vq r by (auto simp: K_def)
qed

lemma rsearch_hit: "rmatch r s k (k, k) = Some z \<Longrightarrow> rsearch r s k = Some (k, z)"
  by (cases s) simp_all

lemma rsearch_skip:
  "(\<And>j. j < length pre \<Longrightarrow> rmatch r (drop j (pre @ s)) (k + j) (k + j, k + j) = None) \<Longrightarrow>
     rsearch r (pre @ s) k = rsearch r s (k + length pre)"
proof (induction pre arbitrary: k)
  case Nil
  then show ?case by simp
next
  case (Cons a pre)
  have 0: "rmatch r ((a # pre) @ s) k (k, k) = None" using Cons.prems [of 0] by simp
  have "rmatch r (drop j (pre @ s)) (Suc k + j) (Suc k + j, Suc k + j) = None"
    if "j < length pre" for j
    using Cons.prems [of "Suc j"] that by simp
  then have "rsearch r (pre @ s) (Suc k) = rsearch r s (Suc k + length pre)"
    by (rule Cons.IH)
  then show ?case using 0 by simp
qed

lemma rsearch_sound:
  "rsearch r s k = Some (i, e, g, h) \<Longrightarrow>
     k \<le> i \<and> i - k \<le> length s \<and> rmatch r (drop (i - k) s) i (i, i) = Some (e, g, h)"
proof (induction s arbitrary: k)
  case Nil
  then show ?case by (auto split: option.splits)
next
  case (Cons a s)
  show ?case
  proof (cases "rmatch r (a # s) k (k, k)")
    case None
    then have "rsearch r s (Suc k) = Some (i, e, g, h)" using Cons.prems by simp
    from Cons.IH [OF this] have ih: "Suc k \<le> i" "i - Suc k \<le> length s"
      "rmatch r (drop (i - Suc k) s) i (i, i) = Some (e, g, h)" by simp_all
    have "i - k = Suc (i - Suc k)" using ih(1) by arith
    then show ?thesis using ih by simp
  next
    case (Some z)
    then show ?thesis using Cons.prems by auto
  qed
qed

lemma quoteRegex_plain:
  assumes "CHR ''$'' \<notin> set n"
  shows "rmatch (quoteRegex q n) s k gh =
     (if take (length n) s = n then rmatch (quote_tail q) (drop (length n) s) (k + length n) gh
      else None)"
  using rmatch_lits [of n "quote_tail q" s k gh]
  by (simp add: quoteRegex_def name_nodes_plain [OF assms] quote_tail_def)

lemma capture_sound:
  assumes n: "CHR ''$'' \<notin> set n" and q: "is_quote q"
    and c: "capture (quoteRegex q n) line = Some v"
  shows "\<exists>pre w1 w2 post. line = pre @ n @ w1 @ ''='' @ w2 @ [q] @ v @ [q] @ post \<and>
           spaces w1 \<and> spaces w2 \<and> q \<notin> set v"
proof -
  from c obtain i e g h where rs: "rsearch (quoteRegex q n) line 0 = Some (i, e, g, h)"
    and v: "v = substring line g h"
    by (auto simp: capture_def split: option.splits)
  from rsearch_sound [OF rs] have m: "rmatch (quoteRegex q n) (drop i line) i (i, i) = Some (e, g, h)"
    by simp
  then have t: "take (length n) (drop i line) = n"
    and m2: "rmatch (quote_tail q) (drop (length n) (drop i line)) (i + length n) (i, i) = Some (e, g, h)"
    by (auto simp: quoteRegex_plain [OF n] split: if_splits)
  from quote_tail_sound [OF q m2] obtain w1 w2 v' post where
    d: "drop (length n) (drop i line) = w1 @ ''='' @ w2 @ [q] @ v' @ [q] @ post"
    and sp: "spaces w1" "spaces w2" and vq: "q \<notin> set v'"
    and g: "g = i + length n + length w1 + length w2 + 2" and h: "h = g + length v'"
    by blast
  have di: "drop i line = n @ w1 @ ''='' @ w2 @ [q] @ v' @ [q] @ post"
    using t d by (metis append_take_drop_id)
  then have di': "drop i line = (n @ w1 @ ''='' @ w2 @ [q]) @ v' @ ([q] @ post)" by simp
  have "substring line g h = v'"
    using substring_drop [OF di'] g h by (simp add: ac_simps)
  then have "v' = v" using v by simp
  moreover have "line = take i line @ drop i line" by simp
  ultimately show ?thesis using di sp vq by metis
qed

lemma spaces_no_eq: "spaces w \<Longrightarrow> CHR ''='' \<notin> set w"
  using eq_not_space by (auto simp: spaces_def simp del: in_class.simps)

lemma takeWhile_no_eq:
  "CHR ''='' \<notin> set a \<Longrightarrow> takeWhile (\<lambda>c. c \<noteq> CHR ''='') (a @ CHR ''='' # rest) = a"
  by (induction a) auto

lemma no_match_before:
  assumes n: "CHR ''$'' \<notin> set n" "n \<noteq> []" "\<not> in_class Space (last n)" "CHR ''='' \<notin> set n"
    and q: "is_quote q" and pre: "CHR ''='' \<notin> set p'" "p' \<noteq> []" and w1: "spaces w1"
  shows "rmatch (quoteRegex q n) (p' @ n @ w1 @ CHR ''='' # rest) k gh = None"
proof (rule ccontr)
  assume "rmatch (quoteRegex q n) (p' @ n @ w1 @ CHR ''='' # rest) k gh \<noteq> None"
  then obtain e g h where m: "rmatch (quoteRegex q n) (p' @ n @ w1 @ CHR ''='' # rest) k gh = Some (e, g, h)"
    by (cases "rmatch (quoteRegex q n) (p' @ n @ w1 @ CHR ''='' # rest) k gh") auto
  let ?s = "p' @ n @ w1 @ CHR ''='' # rest"
  obtain g0 h0 where gh: "gh = (g0, h0)" by (cases gh)
  from m have t: "take (length n) ?s = n"
    and m2: "rmatch (quote_tail q) (drop (length n) ?s) (k + length n) (g0, h0) = Some (e, g, h)"
    by (auto simp: quoteRegex_plain [OF n(1)] gh split: if_splits)
  from quote_tail_sound [OF q m2] obtain w1' R where
    d: "drop (length n) ?s = w1' @ CHR ''='' # R" and sp: "spaces w1'"
    by auto
  have "?s = n @ w1' @ CHR ''='' # R" using t d by (metis append_take_drop_id)
  then have "takeWhile (\<lambda>c. c \<noteq> CHR ''='') ((p' @ n @ w1) @ CHR ''='' # rest) =
             takeWhile (\<lambda>c. c \<noteq> CHR ''='') ((n @ w1') @ CHR ''='' # R)"
    by simp
  moreover have a: "CHR ''='' \<notin> set (p' @ n @ w1)"
    using pre n(4) spaces_no_eq [OF w1] by simp
  moreover have b: "CHR ''='' \<notin> set (n @ w1')"
    using n(4) spaces_no_eq [OF sp] by simp
  ultimately have eq: "p' @ n @ w1 = n @ w1'"
    unfolding takeWhile_no_eq [OF a] takeWhile_no_eq [OF b] by simp
  have "drop (length n) ((p' @ n) @ w1) = w1'" using eq by simp
  then have sub: "set (drop (length n) (p' @ n)) \<subseteq> set w1'"
    by (auto simp: drop_append)
  have "length (drop (length n) (p' @ n)) = length p'" by simp
  then have ne: "drop (length n) (p' @ n) \<noteq> []" using pre(2) by (metis length_0_conv)
  have "length n < length (p' @ n)" using pre(2) by (cases p') simp_all
  then have "last (drop (length n) (p' @ n)) = last (p' @ n)"
    by (rule last_drop)
  then have "last n \<in> set (drop (length n) (p' @ n))"
    using ne n(2) by (metis last_appendR last_in_set)
  then have "in_class Space (last n)" using sub sp by (auto simp: spaces_def simp del: in_class.simps)
  then show False using n(3) by simp
qed

lemma capture_first:
  assumes n: "CHR ''$'' \<notin> set n" "n \<noteq> []" "\<not> in_class Space (last n)" "CHR ''='' \<notin> set n"
    and q: "is_quote q" and pre: "CHR ''='' \<notin> set pre"
    and w: "spaces w1" "spaces w2" and vq: "q \<notin> set v"
  shows "capture (quoteRegex q n) (pre @ n @ w1 @ ''='' @ w2 @ [q] @ v @ [q] @ post) = Some v"
proof -
  let ?rest = "w2 @ [q] @ v @ [q] @ post"
  let ?s = "n @ w1 @ CHR ''='' # ?rest"
  let ?line = "pre @ ?s"
  let ?g = "length pre + length n + length w1 + length w2 + 2"
  have none: "rmatch (quoteRegex q n) (drop j ?line) (0 + j) (0 + j, 0 + j) = None"
    if "j < length pre" for j
  proof -
    have "drop j ?line = drop j pre @ ?s" using that by simp
    moreover have "CHR ''='' \<notin> set (drop j pre)" using pre by (meson in_set_dropD)
    moreover have "drop j pre \<noteq> []" using that by simp
    ultimately show ?thesis
      using no_match_before [OF n q _ _ w(1), of "drop j pre" ?rest] by simp
  qed
  have hit: "rmatch (quoteRegex q n) ?s (length pre) (length pre, length pre) =
      Some (?g + length v + 1, ?g, ?g + length v)"
    using quote_tail_complete [OF q w vq, of post "length pre + length n" "length pre" "length pre"]
    by (simp add: quoteRegex_plain [OF n(1)] ac_simps)
  have "rsearch (quoteRegex q n) ?line 0 = rsearch (quoteRegex q n) ?s (0 + length pre)"
    using none by (rule rsearch_skip)
  then have rs: "rsearch (quoteRegex q n) ?line 0 =
      Some (length pre, ?g + length v + 1, ?g, ?g + length v)"
    using rsearch_hit [OF hit] by simp
  have "drop 0 ?line = (pre @ n @ w1 @ ''='' @ w2 @ [q]) @ v @ ([q] @ post)" by simp
  from substring_drop [OF this] have "substring ?line ?g (?g + length v) = v"
    by (simp add: ac_simps)
  then show ?thesis using rs by (simp add: capture_def)
qed

lemma IdStart_Rest: "in_class IdStart x \<Longrightarrow> in_class IdRest x"
  by (auto simp: lower_chars_def upper_chars_def digit_chars_def)

lemma IdRest_plain: "in_class IdRest x \<Longrightarrow> x \<noteq> CHR ''='' \<and> \<not> in_class Space x"
  by (auto simp: lower_chars_def upper_chars_def digit_chars_def space_chars_def)

lemma wordRegex_chars:
  assumes "regex_test wordRegex n"
  shows "n \<noteq> [] \<and> (\<forall>c \<in> set n. in_class IdRest c)"
proof -
  from assms obtain i e g h where rs: "rsearch wordRegex n 0 = Some (i, e, g, h)"
    by (auto simp: regex_test_def)
  from rsearch_sound [OF rs] have m: "rmatch wordRegex (drop i n) i (i, i) = Some (e, g, h)"
    by simp
  then have i: "i = 0" by (auto simp: wordRegex_def split: if_splits)
  then have m0: "rmatch [One IdStart, Star IdRest, Eoi] n 0 (0, 0) = Some (e, g, h)"
    using m by (simp add: wordRegex_def)
  then obtain x xs where n: "n = x # xs" by (cases n) auto
  have x: "in_class IdStart x"
    and m1: "rmatch (Star IdRest # [Eoi]) xs (Suc 0) (0, 0) = Some (e, g, h)"
    using m0 unfolding n by (auto split: if_splits simp del: in_class.simps rmatch.simps(5))
  have "rmatch [Eoi] (y # ys) k gh = None" for y ys k gh by simp
  then have "rmatch (Star IdRest # [Eoi]) xs (Suc 0) (0, 0) =
      rmatch [Eoi] (dropWhile (in_class IdRest) xs)
        (Suc 0 + length (takeWhile (in_class IdRest) xs)) (0, 0)"
    by (intro star_skip)
  then have "dropWhile (in_class IdRest) xs = []"
    using m1 by (auto split: if_splits simp del: in_class.simps rmatch.simps(5))
  then have "\<forall>c \<in> set xs. in_class IdRest c" by (simp del: in_class.simps)
  then show ?thesis using x IdStart_Rest n by (auto simp del: in_class.simps)
qed

lemma identifier_plain:
  assumes "regex_test wordRegex n"
  shows "n \<noteq> [] \<and> \<not> in_class Space (last n) \<and> CHR ''='' \<notin> set n"
proof -
  note w = wordRegex_chars [OF assms]
  then have "in_class IdRest (last n)" by (simp del: in_class.simps)
  then show ?thesis using w IdRest_plain by (auto simp del: in_class.simps)
qed

section \<open>Facts about the assignment pattern\<close>

text \<open>
  The assignment pattern \<^verbatim>\<open>([a-zA-Z_$][a-zA-Z0-9_$]*)\s*=\<close> never backtracks: at an offset
  it matches exactly when an identifier starts there whose longest run of identifier
  characters is followed by whitespace and an equals sign.
\<close>

lemma assign_star_id:
  "rmatch (Star IdRest # [GClose, Star Space, One (Ch CHR ''='')]) s k gh =
     rmatch [GClose, Star Space, One (Ch CHR ''='')] (dropWhile (in_class IdRest) s)
       (k + length (takeWhile (in_class IdRest) s)) gh"
proof (rule star_skip)
  fix x xs k gh
  assume "in_class IdRest x"
  then have "x \<noteq> CHR ''=''" "\<not> in_class Space x" using IdRest_plain by auto
  then show "rmatch [GClose, Star Space, One (Ch CHR ''='')] (x # xs) k gh = None"
    by (cases gh) (simp del: in_class.simps(3))
qed

lemma assignmentRegex_match:
  "rmatch assignmentRegex (a # t) k (g0, h0) =
     (if in_class IdStart a
      then (case dropWhile (in_class Space) (dropWhile (in_class IdRest) t) of
              [] \<Rightarrow> None
            | c # R \<Rightarrow>
                if c = CHR ''=''
                then Some (Suc (Suc k + length (takeWhile (in_class IdRest) t) +
                             length (takeWhile (in_class Space) (dropWhile (in_class IdRest) t))),
                           k, Suc k + length (takeWhile (in_class IdRest) t))
                else None)
      else None)"
proof -
  have one: "rmatch [One (Ch CHR ''='')] D n (g, j) =
      (case D of [] \<Rightarrow> None | c # R \<Rightarrow> if c = CHR ''='' then Some (Suc n, g, j) else None)"
    for D n g j
    by (cases D) simp_all
  have close: "rmatch [GClose, Star Space, One (Ch CHR ''='')] d j (g, h) =
      (case dropWhile (in_class Space) d of
         [] \<Rightarrow> None
       | c # R \<Rightarrow> if c = CHR ''='' then Some (Suc (j + length (takeWhile (in_class Space) d)), g, j)
                  else None)" for d j g h
    by (simp add: tail_star1 one del: in_class.simps rmatch.simps(2-5))
  have "rmatch assignmentRegex (a # t) k (g0, h0) =
      (if in_class IdStart a
       then rmatch (Star IdRest # [GClose, Star Space, One (Ch CHR ''='')]) t (Suc k) (k, h0)
       else None)"
    by (simp add: assignmentRegex_def del: in_class.simps rmatch.simps(5))
  also have "\<dots> =
      (if in_class IdStart a
       then rmatch [GClose, Star Space, One (Ch CHR ''='')] (dropWhile (in_class IdRest) t)
              (Suc k + length (takeWhile (in_class IdRest) t)) (k, h0)
       else None)"
    by (simp only: assign_star_id)
  finally show ?thesis by (simp only: close)
qed

lemma assignmentRegex_hit:
  assumes a: "in_class IdStart a" and I: "\<forall>c \<in> set I. in_class IdRest c" and W: "spaces W"
  shows "rmatch assignmentRegex (a # I @ W @ CHR ''='' # R) k (g0, h0) =
           Some (Suc (Suc k + length I + length W), k, Suc k + length I)"
proof -
  have nI: "\<not> in_class IdRest c" if "c \<in> set (W @ [CHR ''=''])" for c
    using that W IdRest_plain [of c] by (auto simp: spaces_def simp del: in_class.simps)
  have t: "takeWhile (in_class IdRest) (I @ W @ CHR ''='' # R) = I"
    "dropWhile (in_class IdRest) (I @ W @ CHR ''='' # R) = W @ CHR ''='' # R"
    using I nI by (cases W; simp del: in_class.simps)+
  show ?thesis
    using takeWhile_spaces [OF W eq_not_space, of R] a
    by (simp add: assignmentRegex_match t del: in_class.simps)
qed

lemma assignmentRegex_none_before:
  assumes p: "p \<noteq> []" "\<not> in_class IdRest (last p)" "CHR ''='' \<notin> set p"
    and N: "N \<noteq> []" "\<forall>c \<in> set N. in_class IdRest c"
  shows "rmatch assignmentRegex (p @ N @ rest) k gh = None"
proof -
  obtain g0 h0 where gh: "gh = (g0, h0)" by (cases gh)
  obtain a p' where pa: "p = a # p'" using p(1) by (cases p) auto
  show ?thesis
  proof (cases "in_class IdStart a")
    case False
    then show ?thesis by (simp add: pa gh assignmentRegex_match del: in_class.simps)
  next
    case True
    then have "in_class IdRest a" by (rule IdStart_Rest)
    then have p': "p' \<noteq> []" using p(2) pa by (cases p') auto
    then have lp: "last p' = last p" using pa by simp
    define z where "z = dropWhile (in_class IdRest) p'"
    have zne: "z \<noteq> []" using p' lp p(2) unfolding z_def
      by (metis dropWhile_eq_Nil_conv last_in_set)
    have d1: "dropWhile (in_class IdRest) (p' @ N @ rest) = z @ N @ rest"
      unfolding z_def using zne z_def by (metis dropWhile_append1 dropWhile_eq_Nil_conv)
    have zsub: "set z \<subseteq> set p'" unfolding z_def by (meson set_dropWhileD subsetI)
    have nsp: "\<not> in_class Space (hd N)" using N IdRest_plain [of "hd N"] by auto
    have "hd N \<in> set (z @ N)" using N(1) by simp
    then have d2: "dropWhile (in_class Space) ((z @ N) @ rest) =
        dropWhile (in_class Space) (z @ N) @ rest"
      using nsp by (rule dropWhile_append1)
    define y where "y = dropWhile (in_class Space) (z @ N)"
    have yne: "y \<noteq> []" unfolding y_def using nsp \<open>hd N \<in> set (z @ N)\<close>
      by (metis dropWhile_eq_Nil_conv)
    have "set y \<subseteq> set (z @ N)" unfolding y_def by (meson set_dropWhileD subsetI)
    moreover have "CHR ''='' \<notin> set N"
      using N(2) IdRest_plain [of "CHR ''=''"] by (auto simp del: in_class.simps)
    moreover have "CHR ''='' \<notin> set z" using zsub p(3) pa by auto
    ultimately have "set y \<subseteq> set (z @ N)" "CHR ''='' \<notin> set (z @ N)" by simp_all
    then have "CHR ''='' \<notin> set y" by blast
    moreover have "hd y \<in> set y" using yne by simp
    ultimately have "hd y \<noteq> CHR ''=''" by metis
    then obtain c R where "y @ rest = c # R" "c \<noteq> CHR ''=''"
      using yne by (cases y) auto
    then show ?thesis
      using True d1 d2 by (simp add: pa gh assignmentRegex_match y_def del: in_class.simps)
  qed
qed

text \<open>
  The loop over the matches passes over a stretch of the line where no match starts, and
  reports a match where one starts.
\<close>

lemma exec_loop_skip:
  "(\<And>j. j < length pre \<Longrightarrow> rmatch r (drop j (pre @ s)) (k + j) (k + j, k + j) = None) \<Longrightarrow>
     exec_loop r (pre @ s) k = exec_loop r s (k + length pre)"
proof (induction pre arbitrary: k)
  case Nil
  then show ?case by simp
next
  case (Cons a pre)
  have 0: "rmatch r ((a # pre) @ s) k (k, k) = None" using Cons.prems [of 0] by simp
  have "rmatch r (drop j (pre @ s)) (Suc k + j) (Suc k + j, Suc k + j) = None"
    if "j < length pre" for j
    using Cons.prems [of "Suc j"] that by simp
  then have "exec_loop r (pre @ s) (Suc k) = exec_loop r s (Suc k + length pre)"
    by (rule Cons.IH)
  then show ?case using 0 by simp
qed

lemma exec_loop_hit:
  assumes D: "One D \<in> set r" and m: "rmatch r s i (i, i) = Some (e, g, h)"
  shows "\<exists>ms. exec_loop r s i = Some ((i, e, g, h) # ms) \<and>
           exec_loop r (drop (e - i) s) e = Some ms"
proof -
  have ie: "i < e" using rmatch_progress [OF m D] .
  obtain x xs where s: "s = x # xs"
    using m rmatch_empty_no_One [of r i "(i, i)" _ D] D by (cases s) auto
  obtain ms where ms: "exec_loop r (drop (e - Suc i) xs) e = Some ms"
    using exec_loop_ends [OF D] by blast
  have "e - i = Suc (e - Suc i)" using ie by arith
  then have "drop (e - i) s = drop (e - Suc i) xs" using s by simp
  then show ?thesis using m ms ie s by simp
qed

text \<open>A pattern that asks for a character finds nothing in text that does not have it.\<close>

lemma rmatch_needs_char:
  "One (Ch c) \<in> set r \<Longrightarrow> c \<notin> set s \<Longrightarrow> rmatch r s k gh = None"
proof (induction r s k gh rule: rmatch.induct)
  case (5 C r x xs k gh)
  then show ?case by (auto split: option.splits)
next
  case (7 C r x xs k gh)
  then show ?case by (auto split: option.splits)
qed auto

lemma exec_loop_none:
  "One (Ch c) \<in> set r \<Longrightarrow> c \<notin> set s \<Longrightarrow> exec_loop r s i = Some []"
proof (induction s arbitrary: i)
  case Nil
  then show ?case using rmatch_needs_char [of c r "[]" i "(i, i)"] by simp
next
  case (Cons x xs)
  then show ?case using rmatch_needs_char [of c r "x # xs" i "(i, i)"] by simp
qed

text \<open>
  So where a name that the word pattern accepts stands before optional whitespace and an
  equals sign, after text that has no equals sign and does not end in an identifier
  character, the first match of the loop is that name; and it is the only match when no
  equals sign follows.
\<close>

lemma wordRegex_start:
  assumes "regex_test wordRegex n"
  shows "in_class IdStart (hd n)"
proof -
  from assms obtain i e g h where rs: "rsearch wordRegex n 0 = Some (i, e, g, h)"
    by (auto simp: regex_test_def)
  from rsearch_sound [OF rs] have m: "rmatch wordRegex (drop i n) i (i, i) = Some (e, g, h)"
    by simp
  then have i: "i = 0" by (auto simp: wordRegex_def split: if_splits)
  then have m0: "rmatch [One IdStart, Star IdRest, Eoi] n 0 (0, 0) = Some (e, g, h)"
    using m by (simp add: wordRegex_def)
  then obtain x xs where n: "n = x # xs" by (cases n) auto
  show ?thesis
    using m0 unfolding n by (auto split: if_splits simp del: in_class.simps rmatch.simps(5))
qed

lemma assignment_found:
  assumes N: "regex_test wordRegex N"
    and pre: "CHR ''='' \<notin> set pre" "pre = [] \<or> \<not> in_class IdRest (last pre)"
    and W: "spaces W"
  shows "\<exists>ms. exec_loop assignmentRegex (pre @ N @ W @ CHR ''='' # R) 0 =
                 Some ((length pre, Suc (length pre + length N + length W), length pre,
                        length pre + length N) # ms) \<and>
               exec_loop assignmentRegex R (Suc (length pre + length N + length W)) = Some ms"
proof -
  note c = wordRegex_chars [OF N]
  obtain a I where aI: "N = a # I" using c by (cases N) auto
  have a: "in_class IdStart a" using wordRegex_start [OF N] aI by simp
  have I: "\<forall>c \<in> set I. in_class IdRest c" using c aI by (simp del: in_class.simps)
  let ?s = "N @ W @ CHR ''='' # R"
  have none: "rmatch assignmentRegex (drop j (pre @ ?s)) (0 + j) (0 + j, 0 + j) = None"
    if "j < length pre" for j
  proof -
    have d: "drop j (pre @ ?s) = drop j pre @ N @ (W @ CHR ''='' # R)" using that by simp
    have ne: "drop j pre \<noteq> []" using that by simp
    have "last (drop j pre) = last pre" using that by (rule last_drop)
    moreover have "pre \<noteq> []" using that by auto
    ultimately have l: "\<not> in_class IdRest (last (drop j pre))" using pre(2) by simp
    have e: "CHR ''='' \<notin> set (drop j pre)" using pre(1) by (meson in_set_dropD)
    show ?thesis
      unfolding d using ne l e c by (intro assignmentRegex_none_before) simp_all
  qed
  have skip: "exec_loop assignmentRegex (pre @ ?s) 0 = exec_loop assignmentRegex ?s (0 + length pre)"
    using none by (rule exec_loop_skip)
  have hit: "rmatch assignmentRegex ?s (length pre) (length pre, length pre) =
      Some (Suc (length pre + length N + length W), length pre, length pre + length N)"
    using assignmentRegex_hit [OF a I W, of R "length pre" "length pre" "length pre"]
    by (simp add: aI)
  have D: "One (Ch CHR ''='') \<in> set assignmentRegex" by (simp add: assignmentRegex_def)
  have dr: "drop (Suc (length pre + length N + length W) - length pre) ?s = R"
    by simp
  from exec_loop_hit [OF D hit] show ?thesis unfolding dr using skip by simp
qed

lemma matched_names_found:
  assumes N: "regex_test wordRegex N"
    and pre: "CHR ''='' \<notin> set pre" "pre = [] \<or> \<not> in_class IdRest (last pre)"
    and W: "spaces W"
  shows "N \<in> set (matched_names assignmentRegex (pre @ N @ W @ CHR ''='' # R))"
proof -
  from assignment_found [OF assms, of R] obtain ms where
    "exec_loop assignmentRegex (pre @ N @ W @ CHR ''='' # R) 0 =
       Some ((length pre, Suc (length pre + length N + length W), length pre,
              length pre + length N) # ms)"
    by blast
  then show ?thesis by (simp add: matched_names_def exec_all_def substring_def)
qed

lemma matched_names_only:
  assumes N: "regex_test wordRegex N" and W: "spaces W" and R: "CHR ''='' \<notin> set R"
  shows "matched_names assignmentRegex (N @ W @ CHR ''='' # R) = [N]"
proof -
  have D: "One (Ch CHR ''='') \<in> set assignmentRegex" by (simp add: assignmentRegex_def)
  from assignment_found [OF N _ _ W, of "[]" R] obtain ms where
    e: "exec_loop assignmentRegex (N @ W @ CHR ''='' # R) 0 =
       Some ((0, Suc (length N + length W), 0, length N) # ms)"
    and ms: "exec_loop assignmentRegex R (Suc (length N + length W)) = Some ms"
    by auto
  have "ms = []" using exec_loop_none [OF D R] ms by simp
  then show ?thesis using e by (simp add: matched_names_def exec_all_def substring_def)
qed

text \<open>A line with a single equals sign splits at it in one way only.\<close>

lemma split_at_only:
  assumes eq: "A @ c # B = A' @ c # B'" and A: "c \<notin> set A" and B: "c \<notin> set B"
  shows "A' = A \<and> B' = B"
proof (cases "c \<in> set A'")
  case False
  have "takeWhile (\<lambda>x. x \<noteq> c) (A @ c # B) = A" using A by (induction A) auto
  moreover have "takeWhile (\<lambda>x. x \<noteq> c) (A' @ c # B') = A'" using False by (induction A') auto
  ultimately have "A' = A" using eq by simp
  then show ?thesis using eq by simp
next
  case True
  then obtain A1 A2 where s: "A' = A1 @ c # A2" "c \<notin> set A1" by (meson split_list_first)
  have "takeWhile (\<lambda>x. x \<noteq> c) (A @ c # B) = A" using A by (induction A) auto
  moreover have "takeWhile (\<lambda>x. x \<noteq> c) (A1 @ c # (A2 @ c # B')) = A1"
    using s(2) by (induction A1) auto
  ultimately have "A1 = A" using eq s(1) by simp
  then have "B = A2 @ c # B'" using eq s(1) by simp
  then show ?thesis using B by simp
qed

lemma other_quote_none:
  assumes n: "CHR ''$'' \<notin> set n" and q: "is_quote q" and r: "is_quote r" and rq: "r \<noteq> q"
    and A: "CHR ''='' \<notin> set A" and wb: "spaces wb"
    and B: "CHR ''='' \<notin> set B"
  shows "capture (quoteRegex r n) (A @ CHR ''='' # wb @ q # B) = None"
proof (rule ccontr)
  assume "capture (quoteRegex r n) (A @ CHR ''='' # wb @ q # B) \<noteq> None"
  then obtain u where "capture (quoteRegex r n) (A @ CHR ''='' # wb @ q # B) = Some u" by auto
  from capture_sound [OF n r this] obtain pre w1 w2 post where
    l: "A @ CHR ''='' # wb @ q # B = pre @ n @ w1 @ ''='' @ w2 @ [r] @ u @ [r] @ post"
    and sp: "spaces w1" "spaces w2"
    by blast
  have qe: "q \<noteq> CHR ''=''" using q by (auto simp: is_quote_def dquote_def squote_def bquote_def)
  have "CHR ''='' \<notin> set (wb @ q # B)" using spaces_no_eq [OF wb] B qe by simp
  moreover have "A @ CHR ''='' # (wb @ q # B) = (pre @ n @ w1) @ CHR ''='' # (w2 @ r # u @ r # post)"
    using l by simp
  ultimately have eq: "w2 @ r # u @ r # post = wb @ q # B"
    using split_at_only [of A "CHR ''=''" "wb @ q # B" "pre @ n @ w1" "w2 @ r # u @ r # post"] A
    by blast
  have d1: "dropWhile (in_class Space) (w2 @ r # u @ r # post) = r # u @ r # post"
    using takeWhile_spaces [OF sp(2) quote_not_space [OF r], of "u @ r # post"] by simp
  have d2: "dropWhile (in_class Space) (wb @ q # B) = q # B"
    using takeWhile_spaces [OF wb quote_not_space [OF q], of B] by simp
  have "r # u @ r # post = q # B" using d1 d2 eq by metis
  then show False using rq by simp
qed

text \<open>
  On a line whose only equals sign is the one of an assignment to a quoted literal, the
  literal's content is the value of every name that ends right before the assignment.
\<close>

lemma single_assignment_value:
  assumes id: "regex_test wordRegex n" and nd: "CHR ''$'' \<notin> set n"
    and pre: "CHR ''='' \<notin> set pre" and w: "spaces wa" "spaces wb"
    and q: "is_quote q" and v: "q \<notin> set v" "v \<noteq> []" "CHR ''='' \<notin> set v"
    and post: "CHR ''='' \<notin> set post"
  shows "extractVariableValue (pre @ n @ wa @ ''='' @ wb @ [q] @ v @ [q] @ post) n = Some v"
proof -
  let ?line = "pre @ n @ wa @ ''='' @ wb @ [q] @ v @ [q] @ post"
  note p = identifier_plain [OF id]
  have c: "capture (quoteRegex q n) ?line = Some v"
    using capture_first [of n q pre wa wb v post] nd p q pre w v by simp
  have qe: "q \<noteq> CHR ''=''" using q by (auto simp: is_quote_def dquote_def squote_def bquote_def)
  have A: "CHR ''='' \<notin> set (pre @ n @ wa)" using pre p spaces_no_eq [OF w(1)] by simp
  have B: "CHR ''='' \<notin> set (v @ q # post)" using v(3) post qe by simp
  have other: "capture (quoteRegex r n) ?line = None" if "is_quote r" "r \<noteq> q" for r
    using other_quote_none [OF nd q that A w(2) B] by simp
  have qs: "is_quote dquote" "is_quote squote" "is_quote bquote" by (simp_all add: is_quote_def)
  have ne: "squote \<noteq> dquote" "bquote \<noteq> dquote" "bquote \<noteq> squote"
    by (simp_all add: dquote_def squote_def bquote_def)
  consider "q = dquote" | "q = squote" | "q = bquote" using q by (auto simp: is_quote_def)
  then show ?thesis
  proof cases
    case 1
    then show ?thesis using c v(2)
      by (simp add: extractVariableValue_def doubleQuoteRegex_def Let_def)
  next
    case 2
    then show ?thesis using c v(2) other [OF qs(1)] ne
      by (simp add: extractVariableValue_def doubleQuoteRegex_def singleQuoteRegex_def Let_def)
  next
    case 3
    then show ?thesis using c v(2) other [OF qs(1)] other [OF qs(2)] ne
      by (simp add: extractVariableValue_def doubleQuoteRegex_def singleQuoteRegex_def
          backQuoteRegex_def Let_def)
  qed
qed

text \<open>
  A value that \<^verbatim>\<open>extractVariableValue\<close> returns stands on the line in quotes, after the
  name and an equals sign.
\<close>

lemma extractVariableValue_sound:
  assumes nd: "CHR ''$'' \<notin> set n" and e: "extractVariableValue line n = Some u"
  shows "u \<noteq> [] \<and>
         (\<exists>pre wa wb r post. is_quote r \<and> spaces wa \<and> spaces wb \<and> r \<notin> set u \<and>
            line = pre @ n @ wa @ ''='' @ wb @ [r] @ u @ [r] @ post)"
proof -
  have qs: "is_quote dquote" "is_quote squote" "is_quote bquote" by (simp_all add: is_quote_def)
  from e obtain r where r: "is_quote r" and c: "capture (quoteRegex r n) line = Some u"
    and u: "u \<noteq> []"
    using qs
    by (auto simp: extractVariableValue_def doubleQuoteRegex_def singleQuoteRegex_def
        backQuoteRegex_def Let_def split: if_splits)
  from capture_sound [OF nd r c] u r show ?thesis by blast
qed

text \<open>
  A line on which \<^verbatim>\<open>BTN = "//button[1]"\<close> stands after text that has no equals sign and
  does not end in an identifier character assigns \<^verbatim>\<open>BTN\<close> that value.
\<close>

lemma button_line_assigns:
  assumes pre: "CHR ''='' \<notin> set pre" "pre = [] \<or> \<not> in_class IdRest (last pre)"
  shows "assigns False ''BTN'' (pre @ button_line @ post) \<and>
         extractVariableValue (pre @ button_line @ post) ''BTN'' = Some ''//button[1]''"
proof -
  let ?R = "'' '' @ [dquote] @ ''//button[1]'' @ [dquote] @ post"
  have l: "pre @ button_line @ post = pre @ ''BTN'' @ '' '' @ CHR ''='' # ?R"
    by (simp add: button_line_def)
  have sp: "spaces '' ''" by (simp add: spaces_def space_chars_def)
  have m: "''BTN'' \<in> set (matched_names assignmentRegex (pre @ button_line @ post))"
    unfolding l using BTN_word pre sp by (rule matched_names_found)
  have "capture (quoteRegex dquote ''BTN'') (pre @ button_line @ post) = Some ''//button[1]''"
    using capture_first [of "''BTN''" dquote pre "'' ''" "'' ''" "''//button[1]''" post] pre(1) sp
    by (simp add: button_line_def is_quote_def space_chars_def dquote_def)
  then have v: "extractVariableValue (pre @ button_line @ post) ''BTN'' = Some ''//button[1]''"
    by (simp add: extractVariableValue_def doubleQuoteRegex_def Let_def)
  show ?thesis using m v by (simp add: assigns_def name_pattern_def extractor_def)
qed

section \<open>The claims\<close>

text \<open>
  C7 (as stated it fails: a table cached within the last five seconds is returned without
  looking at the disk, also when the file has been removed in the meantime).
  \<^verbatim>\<open>loadMetadata\<close> never raises to its caller, whatever the path, the disk, the clock
  and the provider's state are. When it does not answer from a cached table that is
  still fresh for the path, it returns none without logging if no file exists at the
  path; and if the file is there but its content does not parse as JSON, it reads the
  file once, logs the failure once and returns none, leaving the cache as it was.
\<close>

theorem loadMetadata_never_raises:
  "(\<exists>r. fst (loadMetadata h now p s) = Inr r) \<and>
   (\<not> metadata_fresh now p s \<and> files h p = None \<longrightarrow> loadMetadata h now p s = (Inr None, s)) \<and>
   (\<not> metadata_fresh now p s \<and> files h p = Some (Content raw) \<and> json_parse h raw = None \<longrightarrow>
      loadMetadata h now p s =
        (Inr None,
         s\<lparr>file_reads := file_reads s @ [p], console := console s @ [LoadError SyntaxError]\<rparr>))"
  by (auto simp: loadMetadata_def loadMetadata_try_def existsSync_def readFileSync_def
      JSON_parse_def Let_def split: prod.splits sum.splits)

theorem loadMetadata_never_raises_witness:
  "(\<exists>r. fst (loadMetadata no_files_host 0 ''/w/.photos/element_selectors.json'' new_provider) = Inr r) \<and>
   \<not> metadata_fresh 0 ''/w/.photos/element_selectors.json'' new_provider \<and>
   files no_files_host ''/w/.photos/element_selectors.json'' = None \<and>
   loadMetadata no_files_host 0 ''/w/.photos/element_selectors.json'' new_provider =
     (Inr None, new_provider) \<and>
   files garbage_host ''/w/.photos/element_selectors.json'' = Some (Content ''{'') \<and>
   json_parse garbage_host ''{'' = None \<and>
   loadMetadata garbage_host 0 ''/w/.photos/element_selectors.json'' new_provider =
     (Inr None,
      new_provider\<lparr>file_reads := [''/w/.photos/element_selectors.json''],
        console := [LoadError SyntaxError]\<rparr>)"
  using
    loadMetadata_never_raises
      [of no_files_host 0 "''/w/.photos/element_selectors.json''" new_provider "''{''"]
    loadMetadata_never_raises
      [of garbage_host 0 "''/w/.photos/element_selectors.json''" new_provider "''{''"]
  by (simp add: metadata_fresh_def new_provider_def no_files_host_def garbage_host_def)

text \<open>
  The claim as stated fails here: no file exists at the path, the table cached 100 ms
  earlier is still fresh, and the call returns that table, not none.
\<close>

theorem loadMetadata_fresh_cache_counterexample:
  "files no_files_host ''/w/.photos/element_selectors.json'' = None \<and>
   fst (loadMetadata no_files_host 100 ''/w/.photos/element_selectors.json'' (cached_at 0)) =
     Inr (Some Map.empty)"
  by (simp add: loadMetadata_def metadata_fresh_def cached_at_def new_provider_def
      no_files_host_def)

text \<open>
  C6 (as stated it fails where the file is gone when the window has passed: nothing is
  read then). Let the provider hold a table cached for the path \<open>p\<close> at time \<open>t\<close>, with
  the window of 5000 ms. A call for \<open>p\<close> at a time \<open>now\<close> with \<open>now - t < 5000\<close> returns
  the cached table and changes nothing: no file is read. A call with \<open>now - t \<ge> 5000\<close>
  goes to the disk: if a file exists at \<open>p\<close> it is read, exactly once, and when it parses
  the new table is returned and cached with the time \<open>now\<close>; if no file exists at \<open>p\<close>
  the call returns none without reading.
\<close>

theorem loadMetadata_window:
  assumes "metadataCache s = Some table" and "metadataCachePath s = Some p"
    and "lastCacheTime s = t" and "cacheTimeout s = 5000"
  shows "(now - t < 5000 \<longrightarrow> loadMetadata h now p s = (Inr (Some table), s)) \<and>
         (now - t \<ge> 5000 \<and> files h p \<noteq> None \<longrightarrow>
            file_reads (snd (loadMetadata h now p s)) = file_reads s @ [p]) \<and>
         (now - t \<ge> 5000 \<and> files h p = Some (Content raw) \<and> json_parse h raw = Some table' \<longrightarrow>
            loadMetadata h now p s =
              (Inr (Some table'),
               s\<lparr>file_reads := file_reads s @ [p], metadataCache := Some table',
                 metadataCachePath := Some p, lastCacheTime := now\<rparr>)) \<and>
         (now - t \<ge> 5000 \<and> files h p = None \<longrightarrow> loadMetadata h now p s = (Inr None, s))"
  using assms
  by (auto simp: loadMetadata_def metadata_fresh_def loadMetadata_try_def existsSync_def
      readFileSync_def JSON_parse_def Let_def
      split: prod.splits sum.splits fnode.splits option.splits)

theorem loadMetadata_window_witness:
  "loadMetadata table_host 4999 ''/w/.photos/element_selectors.json'' (cached_at 0) =
     (Inr (Some Map.empty), cached_at 0) \<and>
   file_reads (snd (loadMetadata table_host 5000 ''/w/.photos/element_selectors.json'' (cached_at 0))) =
     [''/w/.photos/element_selectors.json''] \<and>
   loadMetadata table_host 5000 ''/w/.photos/element_selectors.json'' (cached_at 0) =
     (Inr (Some Map.empty),
      (cached_at 0)\<lparr>file_reads := [''/w/.photos/element_selectors.json''],
         metadataCache := Some Map.empty,
         metadataCachePath := Some ''/w/.photos/element_selectors.json'',
         lastCacheTime := 5000\<rparr>) \<and>
   loadMetadata no_files_host 5000 ''/w/.photos/element_selectors.json'' (cached_at 0) =
     (Inr None, cached_at 0)"
  using
    loadMetadata_window [of "cached_at 0" Map.empty "''/w/.photos/element_selectors.json''" 0
      4999 table_host "''{}''" Map.empty]
    loadMetadata_window [of "cached_at 0" Map.empty "''/w/.photos/element_selectors.json''" 0
      5000 table_host "''{}''" Map.empty]
    loadMetadata_window [of "cached_at 0" Map.empty "''/w/.photos/element_selectors.json''" 0
      5000 no_files_host "''{}''" Map.empty]
  by (simp add: cached_at_def new_provider_def table_host_def no_files_host_def)

text \<open>
  The claim as stated fails here: the table was cached at time 0, the call comes at time
  5000, no file exists at the path any more, and the call reads nothing.
\<close>

theorem loadMetadata_no_reread_counterexample:
  "(5000::int) - 0 \<ge> 5000 \<and>
   file_reads
     (snd (loadMetadata no_files_host 5000 ''/w/.photos/element_selectors.json'' (cached_at 0))) =
     file_reads (cached_at 0)"
  by (simp add: loadMetadata_def metadata_fresh_def cached_at_def new_provider_def
      no_files_host_def existsSync_def)

text \<open>
  C9. \<^verbatim>\<open>extractVariableValue\<close> looks for the name anywhere in the line, also at the end of
  a longer name, and nowhere else.

  \<^item> Take a name that the word pattern accepts, without a dollar sign, and a second name
    that the word pattern accepts too and that ends with the first, as the name of a
    longer variable does. On a line that assigns a non-empty literal, in any of the three
    quoting styles, to the second name and has no other equals sign, the assignment
    pattern finds the second name and nothing else: the line assigns only that variable.
    Yet \<^verbatim>\<open>extractVariableValue\<close>, asked for the first name, returns the literal's
    content, not none. On \<^verbatim>\<open>max = "v"\<close> it returns \<^verbatim>\<open>v\<close> for \<^verbatim>\<open>x\<close>.
  \<^item> For every name and every line: a value that \<^verbatim>\<open>extractVariableValue\<close> returns is not
    empty and stands on the line between two quote characters of one kind, right after
    an occurrence of the name, optional whitespace, an equals sign and optional
    whitespace. Nothing is asked of what comes before that occurrence of the name.
  \<^item> So a name that occurs nowhere in the line gives none.
\<close>

theorem extractVariableValue_unanchored:
  "(regex_test wordRegex name \<and> CHR ''$'' \<notin> set name \<and>
    regex_test wordRegex (p @ name) \<and> spaces wa \<and> spaces wb \<and> is_quote q \<and> q \<notin> set v \<and>
    v \<noteq> [] \<and> CHR ''='' \<notin> set v \<and> CHR ''='' \<notin> set post \<longrightarrow>
      matched_names assignmentRegex (p @ name @ wa @ ''='' @ wb @ [q] @ v @ [q] @ post) =
        [p @ name] \<and>
      extractVariableValue (p @ name @ wa @ ''='' @ wb @ [q] @ v @ [q] @ post) name = Some v) \<and>
   (extractVariableValue line name = Some u \<longrightarrow>
      u \<noteq> [] \<and>
      (\<exists>pre wa wb r post. is_quote r \<and> spaces wa \<and> spaces wb \<and> r \<notin> set u \<and>
         line = pre @ name @ wa @ ''='' @ wb @ [r] @ u @ [r] @ post)) \<and>
   ((\<forall>pre post. line \<noteq> pre @ name @ post) \<longrightarrow> extractVariableValue line name = None)"
proof -
  have sound: "u \<noteq> [] \<and>
      (\<exists>pre wa wb r post. is_quote r \<and> spaces wa \<and> spaces wb \<and> r \<notin> set u \<and>
         line = pre @ name @ wa @ ''='' @ wb @ [r] @ u @ [r] @ post)"
    if e: "extractVariableValue line name = Some u" for line u
  proof (cases "CHR ''$'' \<in> set name")
    case True
    then show ?thesis using e by (simp add: extractVariableValue_dollar)
  next
    case False
    then show ?thesis using e by (rule extractVariableValue_sound)
  qed
  have absent: "extractVariableValue line name = None"
    if a: "\<forall>pre post. line \<noteq> pre @ name @ post"
  proof (cases "extractVariableValue line name")
    case None
    then show ?thesis .
  next
    case (Some u)
    from sound [OF this] a show ?thesis by blast
  qed
  have longer: "matched_names assignmentRegex (p @ name @ wa @ ''='' @ wb @ [q] @ v @ [q] @ post) =
        [p @ name] \<and>
      extractVariableValue (p @ name @ wa @ ''='' @ wb @ [q] @ v @ [q] @ post) name = Some v"
    if id: "regex_test wordRegex name" and nd: "CHR ''$'' \<notin> set name"
      and pn: "regex_test wordRegex (p @ name)" and w: "spaces wa" "spaces wb"
      and q: "is_quote q" and v: "q \<notin> set v" "v \<noteq> []" "CHR ''='' \<notin> set v"
      and post: "CHR ''='' \<notin> set post"
  proof -
    have qe: "q \<noteq> CHR ''=''" using q by (auto simp: is_quote_def dquote_def squote_def bquote_def)
    have R: "CHR ''='' \<notin> set (wb @ [q] @ v @ [q] @ post)"
      using spaces_no_eq [OF w(2)] v(3) post qe by simp
    have pe: "CHR ''='' \<notin> set p" using identifier_plain [OF pn] by simp
    have "matched_names assignmentRegex ((p @ name) @ wa @ CHR ''='' # (wb @ [q] @ v @ [q] @ post)) =
        [p @ name]"
      using pn w(1) R by (rule matched_names_only)
    moreover have "extractVariableValue (p @ name @ wa @ ''='' @ wb @ [q] @ v @ [q] @ post) name =
        Some v"
      using id nd pe w q v post by (rule single_assignment_value)
    ultimately show ?thesis by simp
  qed
  show ?thesis using sound absent longer by blast
qed

theorem extractVariableValue_unanchored_witness:
  "regex_test wordRegex ''x'' \<and> regex_test wordRegex ''max'' \<and>
   matched_names assignmentRegex (''max = '' @ [dquote] @ ''v'' @ [dquote]) = [''max''] \<and>
   extractVariableValue (''max = '' @ [dquote] @ ''v'' @ [dquote]) ''x'' = Some ''v'' \<and>
   (\<exists>pre wa wb r post. is_quote r \<and> spaces wa \<and> spaces wb \<and>
      ''max = '' @ [dquote] @ ''v'' @ [dquote] = pre @ ''x'' @ wa @ ''='' @ wb @ [r] @ ''v'' @ [r] @ post) \<and>
   extractVariableValue (''max = '' @ [dquote] @ ''v'' @ [dquote]) ''y'' = None"
proof -
  let ?line = "''max = '' @ [dquote] @ ''v'' @ [dquote]"
  have x: "regex_test wordRegex ''x''" and m: "regex_test wordRegex ''max''" by code_simp+
  have sp: "spaces '' ''" by (simp add: spaces_def space_chars_def)
  have q: "is_quote dquote" "dquote \<notin> set ''v''" by (simp_all add: is_quote_def dquote_def)
  have 1: "matched_names assignmentRegex ?line = [''max''] \<and>
      extractVariableValue ?line ''x'' = Some ''v''"
    using extractVariableValue_unanchored [where name = "''x''" and p = "''ma''" and wa = "'' ''"
        and wb = "'' ''" and q = dquote and v = "''v''" and post = "[]"] x m sp q
    by simp
  then have 2: "\<exists>pre wa wb r post. is_quote r \<and> spaces wa \<and> spaces wb \<and>
      ?line = pre @ ''x'' @ wa @ ''='' @ wb @ [r] @ ''v'' @ [r] @ post"
    using extractVariableValue_unanchored [where name = "''x''" and line = ?line and u = "''v''"]
    by blast
  have "?line \<noteq> pre @ ''y'' @ post" for pre post
  proof
    assume "?line = pre @ ''y'' @ post"
    then have "set ?line = set (pre @ ''y'' @ post)" by (rule arg_cong)
    then have "CHR ''y'' \<in> set ?line" by simp
    then show False by (simp add: dquote_def)
  qed
  then have 3: "extractVariableValue ?line ''y'' = None"
    using extractVariableValue_unanchored [where name = "''y''" and line = ?line] by blast
  show ?thesis using x m 1 2 3 by simp
qed

text \<open>
  C10. Let a name be one that the word pattern of \<^verbatim>\<open>getVariableAtPosition\<close> accepts and
  let it contain a dollar sign. Then \<^verbatim>\<open>extractVariableValue\<close> returns none for it on
  every line: spliced into the pattern, the dollar sign asserts the end of the input,
  and the pattern goes on to ask for an equals sign. So no lookup ever resolves such a
  name: the document scan of the older provider returns none, and an index that is
  built for the lookup answers \<^verbatim>\<open>null\<close>, for every document.
\<close>

theorem dollar_name_never_resolves:
  assumes "regex_test wordRegex variableName" and "CHR ''$'' \<in> set variableName"
  shows "extractVariableValue line variableName = None \<and>
         findVariableAssignment doc variableName = None \<and>
         (\<not> assignments_fresh now doc s \<longrightarrow>
            fst (findVariableAssignmentEfficient now doc variableName s) = Null)"
proof -
  note d = assms(2)
  have np: "variableName \<notin> set object_prototype_props" using d by (rule dollar_not_inherited)
  have "find (assigns isRobot variableName) ls = None" for isRobot ls
    by (simp add: find_None_iff assigns_def extractor_dollar [OF d])
  then have "\<not> assignments_fresh now doc s \<Longrightarrow>
      fst (buildVariableAssignmentCache now doc s) variableName = None"
    using build_first_occurrence [OF np, of now doc s] by simp
  then have "\<not> assignments_fresh now doc s \<Longrightarrow>
      fst (findVariableAssignmentEfficient now doc variableName s) = Null"
    using np
    by (simp add: findVariableAssignmentEfficient_fst js_get_def or_null_def)
  then show ?thesis
    by (simp add: extractVariableValue_dollar [OF d] findVariableAssignment_def
        findVariableAssignment_lines_dollar [OF d])
qed

theorem dollar_name_never_resolves_witness:
  "regex_test wordRegex ''a$b'' \<and> CHR ''$'' \<in> set ''a$b'' \<and>
   extractVariableValue (''a$b = '' @ [dquote] @ ''v'' @ [dquote]) ''a$b'' = None \<and>
   findVariableAssignment (js_document [''a$b = '' @ [dquote] @ ''v'' @ [dquote]]) ''a$b'' = None \<and>
   \<not> assignments_fresh 0 (js_document [''a$b = '' @ [dquote] @ ''v'' @ [dquote]]) new_provider \<and>
   fst (findVariableAssignmentEfficient 0 (js_document [''a$b = '' @ [dquote] @ ''v'' @ [dquote]])
          ''a$b'' new_provider) = Null"
proof -
  have w: "regex_test wordRegex ''a$b''" by code_simp
  have d: "CHR ''$'' \<in> set ''a$b''" by simp
  have f: "\<not> assignments_fresh 0 (js_document [''a$b = '' @ [dquote] @ ''v'' @ [dquote]]) new_provider"
    by (simp add: assignments_fresh_def new_provider_def)
  show ?thesis
    using dollar_name_never_resolves [OF w d,
        of "''a$b = '' @ [dquote] @ ''v'' @ [dquote]"
           "js_document [''a$b = '' @ [dquote] @ ''v'' @ [dquote]]" 0 new_provider] w f
    by simp
qed

text \<open>
  C1 (the code departs from the claim for the names that every object inherits). The
  document is the one line \<^verbatim>\<open>constructor = "a"\<close>. The assignment pattern finds the
  name \<^verbatim>\<open>constructor\<close> on the line and \<^verbatim>\<open>extractVariableValue\<close> gives \<^verbatim>\<open>a\<close> for it,
  but the index built from the document records nothing under the name: the test
  \<^verbatim>\<open>!this.variableAssignmentCache[varName]\<close> reads the constructor function that the
  empty object inherits. A lookup of the name then answers with that function, not with
  the value of the first assignment. (For every other name the first assigning line
  decides: \<open>build_first_occurrence\<close>.)
\<close>

theorem index_skips_inherited_name:
  "matched_names assignmentRegex (''constructor = '' @ [dquote] @ ''a'' @ [dquote]) =
     [''constructor''] \<and>
   extractVariableValue (''constructor = '' @ [dquote] @ ''a'' @ [dquote]) ''constructor'' =
     Some ''a'' \<and>
   fst (buildVariableAssignmentCache 0
          (js_document [''constructor = '' @ [dquote] @ ''a'' @ [dquote]]) new_provider)
     ''constructor'' = None \<and>
   fst (findVariableAssignmentEfficient 0
          (js_document [''constructor = '' @ [dquote] @ ''a'' @ [dquote]])
          ''constructor'' new_provider) = Builtin"
  by code_simp

text \<open>
  C2 (as stated it fails: the two scans can return different values). They agree under
  these conditions:

  \<^item> the document is not a Robot Framework one, and the cursor is on a line of it;
  \<^item> the name is not one that every object inherits;
  \<^item> the index in force is the index of this document under the name: it is built for the
    lookup, or the cached index that is reused holds under the name what a build from
    the document gives;
  \<^item> if the cursor's line itself gives a value for the name, then the first line of the
    document that gives a value for the name gives that same value (nothing is asked when
    the cursor's line gives none, as on a use of the name below its assignment);
  \<^item> the first line of the document that gives a value for the name is a line on which the
    assignment pattern finds the name itself.

  Then the older provider (the cursor's line, else the whole document) and the index lookup
  both return the value that \<^verbatim>\<open>findVariableAssignment\<close> finds, the value of the first line
  in document order that gives one, or both return none.
\<close>

theorem variants_agree:
  assumes lang: "languageId doc \<noteq> ''robotframework''"
    and np: "name \<notin> set object_prototype_props"
    and cur: "fst position < length (doc_lines doc)"
    and idx: "assignments_fresh now doc s \<longrightarrow> variableAssignmentCache s name = index_of doc name"
    and here: "\<forall>l. truthy_capture (extractVariableValue (doc_lines doc ! fst position) name) \<and>
                 find (\<lambda>l. truthy_capture (extractVariableValue l name)) (doc_lines doc) = Some l
                \<longrightarrow> extractVariableValue l name =
                      extractVariableValue (doc_lines doc ! fst position) name"
    and tok: "\<forall>l. find (\<lambda>l. truthy_capture (extractVariableValue l name)) (doc_lines doc) = Some l
                \<longrightarrow> name \<in> set (matched_names assignmentRegex l)"
  shows "legacy_actualValue doc position name = Inr (findVariableAssignment doc name) \<and>
         fst (findVariableAssignmentEfficient now doc name s) =
           as_jsval (findVariableAssignment doc name)"
proof -
  let ?P = "\<lambda>l. truthy_capture (extractVariableValue l name)"
  let ?ls = "doc_lines doc"
  have fva: "findVariableAssignment doc name =
      (case find ?P ?ls of Some l \<Rightarrow> extractVariableValue l name | None \<Rightarrow> None)"
    by (simp add: findVariableAssignment_def findVariableAssignment_lines_find)
  have legacy: "legacy_actualValue doc position name = Inr (findVariableAssignment doc name)"
  proof (cases "?P (?ls ! fst position)")
    case True
    have "?ls ! fst position \<in> set ?ls" using cur by simp
    then have "find ?P ?ls \<noteq> None" using True by (auto simp: find_None_iff)
    then obtain l where l: "find ?P ?ls = Some l" by auto
    then have "extractVariableValue l name = extractVariableValue (?ls ! fst position) name"
      using here True by blast
    then show ?thesis using True cur l by (simp add: legacy_actualValue_def lineAt_def fva Let_def)
  next
    case False
    then show ?thesis using cur by (simp add: legacy_actualValue_def lineAt_def Let_def)
  qed
  have "assigns False name = (\<lambda>l. name \<in> set (matched_names assignmentRegex l) \<and> ?P l)"
    by (simp add: assigns_def fun_eq_iff name_pattern_def extractor_def)
  then have "find (assigns False name) ?ls = find ?P ?ls"
    using find_conj_first [of ?P ?ls "\<lambda>l. name \<in> set (matched_names assignmentRegex l)"] tok
    by simp
  then have "index_of doc name = findVariableAssignment doc name"
    using index_of_first_occurrence [OF np, of doc] lang
    by (simp add: fva extractor_def split: option.splits)
  then have cache: "fst (buildVariableAssignmentCache now doc s) name = findVariableAssignment doc name"
    using idx by (simp add: build_index)
  have "or_null (js_get c name) = as_jsval (findVariableAssignment doc name)"
    if "c name = findVariableAssignment doc name" for c
  proof (cases "find ?P ?ls")
    case None
    then show ?thesis using that np by (simp add: fva js_get_def or_null_def)
  next
    case (Some l)
    then have "?P l" by (auto simp: find_Some_iff)
    then obtain v where "extractVariableValue l name = Some v" "v \<noteq> []"
      by (cases "extractVariableValue l name") auto
    then show ?thesis using that Some by (simp add: fva js_get_def or_null_def)
  qed
  then show ?thesis using legacy cache by (simp add: findVariableAssignmentEfficient_fst)
qed

theorem variants_agree_witness:
  "legacy_actualValue use_below_document (1, 6) ''x'' = Inr (Some ''a'') \<and>
   fst (findVariableAssignmentEfficient 0 use_below_document ''x'' new_provider) = Str ''a'' \<and>
   assignments_fresh 100 three_line_document
     (snd (findVariableAssignmentEfficient 0 three_line_document ''x'' new_provider)) \<and>
   legacy_actualValue three_line_document (1, 0) ''x'' = Inr (Some ''a'') \<and>
   fst (findVariableAssignmentEfficient 100 three_line_document ''x''
          (snd (findVariableAssignmentEfficient 0 three_line_document ''x'' new_provider))) =
     Str ''a''"
proof -
  let ?d = use_below_document
  let ?e = three_line_document
  let ?s = "snd (findVariableAssignmentEfficient 0 ?e ''x'' new_provider)"
  have lang: "languageId ?d \<noteq> ''robotframework''" "languageId ?e \<noteq> ''robotframework''"
    by (simp_all add: use_below_document_def three_line_document_def js_document_def)
  have np: "''x'' \<notin> set object_prototype_props"
    by (simp add: object_prototype_props_def)
  have cur: "fst (1::nat, 6::nat) < length (doc_lines ?d)" "fst (1::nat, 0::nat) < length (doc_lines ?e)"
    by (simp_all add: use_below_document_def three_line_document_def js_document_def)
  have la: "extractVariableValue (''x = '' @ [dquote] @ ''a'' @ [dquote]) ''x'' = Some ''a''"
    by code_simp
  have lc: "extractVariableValue ''click(x)'' ''x'' = None"
    by code_simp
  have ly: "extractVariableValue (''y = '' @ [dquote] @ ''q'' @ [dquote]) ''x'' = None"
    by code_simp
  have ta: "matched_names assignmentRegex (''x = '' @ [dquote] @ ''a'' @ [dquote]) = [''x'']"
    by code_simp
  have nf: "\<not> assignments_fresh 0 ?d new_provider" "\<not> assignments_fresh 0 ?e new_provider"
    by (simp_all add: assignments_fresh_def new_provider_def)
  have s: "variableAssignmentCache ?s ''x'' = index_of ?e ''x''"
    using nf(2) build_index [of 0 ?e new_provider] build_keeps [of 0 ?e new_provider]
    by (simp add: findVariableAssignmentEfficient_snd)
  have f: "assignments_fresh 100 ?e ?s"
    using nf(2)
    by (simp add: findVariableAssignmentEfficient_snd buildVariableAssignmentCache_def Let_def)
       (simp add: assignments_fresh_def new_provider_def)
  have hered: "\<forall>l. truthy_capture (extractVariableValue (doc_lines ?d ! fst (1::nat, 6::nat)) ''x'') \<and>
      find (\<lambda>l. truthy_capture (extractVariableValue l ''x'')) (doc_lines ?d) = Some l
      \<longrightarrow> extractVariableValue l ''x'' = extractVariableValue (doc_lines ?d ! fst (1::nat, 6::nat)) ''x''"
    using la lc by (simp add: use_below_document_def js_document_def)
  have heree: "\<forall>l. truthy_capture (extractVariableValue (doc_lines ?e ! fst (1::nat, 0::nat)) ''x'') \<and>
      find (\<lambda>l. truthy_capture (extractVariableValue l ''x'')) (doc_lines ?e) = Some l
      \<longrightarrow> extractVariableValue l ''x'' = extractVariableValue (doc_lines ?e ! fst (1::nat, 0::nat)) ''x''"
    using la ly by (simp add: three_line_document_def js_document_def)
  have tokd: "\<forall>l. find (\<lambda>l. truthy_capture (extractVariableValue l ''x'')) (doc_lines ?d) = Some l
      \<longrightarrow> ''x'' \<in> set (matched_names assignmentRegex l)"
    using la lc ta by (auto simp: use_below_document_def js_document_def)
  have toke: "\<forall>l. find (\<lambda>l. truthy_capture (extractVariableValue l ''x'')) (doc_lines ?e) = Some l
      \<longrightarrow> ''x'' \<in> set (matched_names assignmentRegex l)"
    using la ly ta by (auto simp: three_line_document_def js_document_def)
  have vd: "findVariableAssignment ?d ''x'' = Some ''a''"
    using la lc by (simp add: findVariableAssignment_def use_below_document_def js_document_def)
  have ve: "findVariableAssignment ?e ''x'' = Some ''a''"
    using la ly by (simp add: findVariableAssignment_def three_line_document_def js_document_def)
  have id: "assignments_fresh 0 ?d new_provider \<longrightarrow>
      variableAssignmentCache new_provider ''x'' = index_of ?d ''x''"
    using nf(1) by simp
  have ie: "assignments_fresh 100 ?e ?s \<longrightarrow> variableAssignmentCache ?s ''x'' = index_of ?e ''x''"
    using s by simp
  show ?thesis
    using variants_agree [OF lang(1) np cur(1) id hered tokd]
      variants_agree [OF lang(2) np cur(2) ie heree toke] vd ve f
    by simp
qed

text \<open>
  The claim as stated fails here, twice. With \<^verbatim>\<open>x = "a"\<close> on the first line,
  \<^verbatim>\<open>x = "b"\<close> on the second and the cursor on the second, the older provider returns
  \<^verbatim>\<open>b\<close> and the index lookup \<^verbatim>\<open>a\<close>. On the one line \<^verbatim>\<open>max = "v"\<close> the older provider
  returns \<^verbatim>\<open>v\<close> for the name \<^verbatim>\<open>x\<close> and the index lookup \<^verbatim>\<open>null\<close>.
\<close>

theorem variants_differ_counterexample:
  "legacy_actualValue
     (js_document [''x = '' @ [dquote] @ ''a'' @ [dquote], ''x = '' @ [dquote] @ ''b'' @ [dquote]])
     (1, 0) ''x'' = Inr (Some ''b'') \<and>
   fst (findVariableAssignmentEfficient 0
     (js_document [''x = '' @ [dquote] @ ''a'' @ [dquote], ''x = '' @ [dquote] @ ''b'' @ [dquote]])
     ''x'' new_provider) = Str ''a'' \<and>
   legacy_actualValue (js_document [''max = '' @ [dquote] @ ''v'' @ [dquote]]) (0, 0) ''x'' =
     Inr (Some ''v'') \<and>
   fst (findVariableAssignmentEfficient 0 (js_document [''max = '' @ [dquote] @ ''v'' @ [dquote]])
     ''x'' new_provider) = Null"
  by code_simp

text \<open>
  C4. \<^verbatim>\<open>provideHover\<close> returns none in each of these cases, whatever the document,
  the cursor, the clock and the provider's state are otherwise: there is no workspace
  folder; the metadata file does not exist (in these two cases no file is read either);
  the table that \<^verbatim>\<open>loadMetadata\<close> returns has no entry for the name under the cursor;
  the entry's \<^verbatim>\<open>xpath\<close> and \<^verbatim>\<open>css\<close> are both different from the value the assignment
  index resolves for the name (as strings, by equality; a field that is absent is
  different); the entry names no photo, or the photo file does not exist in the
  \<^verbatim>\<open>.photos\<close> directory.
\<close>

theorem provideHover_none:
  "(workspaceFolder h = None \<longrightarrow>
      fst (provideHover h now1 now2 doc position s) = None \<and>
      file_reads (snd (provideHover h now1 now2 doc position s)) = file_reads s) \<and>
   (workspaceFolder h = Some root \<and> files h (metadata_path h root) = None \<longrightarrow>
      fst (provideHover h now1 now2 doc position s) = None \<and>
      file_reads (snd (provideHover h now1 now2 doc position s)) = file_reads s) \<and>
   (workspaceFolder h = Some root \<and> getVariableAtPosition doc position = Inr (Some name) \<and>
    loadMetadata h now1 (metadata_path h root) s = (Inr (Some metadata), s1) \<and>
    (metadata name = None \<or>
     metadata name = Some d \<and>
       (map_option Str (xpath d) \<noteq> Some (fst (findVariableAssignmentEfficient now2 doc name s1)) \<and>
        map_option Str (css d) \<noteq> Some (fst (findVariableAssignmentEfficient now2 doc name s1)) \<or>
        photo d = None \<or>
        photo d = Some ph \<and> files h (path_join h (photos_dir h root) ph) = None)) \<longrightarrow>
      fst (provideHover h now1 now2 doc position s) = None)"
proof (intro conjI impI)
  assume "workspaceFolder h = None"
  then show "fst (provideHover h now1 now2 doc position s) = None"
    by (auto simp: provideHover_def provideHover_try_def split: sum.splits option.splits)
next
  assume "workspaceFolder h = None"
  then show "file_reads (snd (provideHover h now1 now2 doc position s)) = file_reads s"
    by (auto simp: provideHover_def provideHover_try_def split: sum.splits option.splits)
next
  assume "workspaceFolder h = Some root \<and> files h (metadata_path h root) = None"
  then show "fst (provideHover h now1 now2 doc position s) = None"
    by (auto simp: provideHover_def provideHover_try_def provideHover_lookup_alt existsSync_def
        split: sum.splits option.splits)
next
  assume "workspaceFolder h = Some root \<and> files h (metadata_path h root) = None"
  then show "file_reads (snd (provideHover h now1 now2 doc position s)) = file_reads s"
    by (auto simp: provideHover_def provideHover_try_def provideHover_lookup_alt existsSync_def
        split: sum.splits option.splits)
next
  let ?v = "fst (findVariableAssignmentEfficient now2 doc name s1)"
  assume a: "workspaceFolder h = Some root \<and> getVariableAtPosition doc position = Inr (Some name) \<and>
    loadMetadata h now1 (metadata_path h root) s = (Inr (Some metadata), s1) \<and>
    (metadata name = None \<or>
     metadata name = Some d \<and>
       (map_option Str (xpath d) \<noteq> Some ?v \<and> map_option Str (css d) \<noteq> Some ?v \<or>
        photo d = None \<or>
        photo d = Some ph \<and> files h (path_join h (photos_dir h root) ph) = None))"
  then consider
      (absent) "metadata name = None"
    | (mismatch) "metadata name = Some d" "map_option Str (xpath d) \<noteq> Some ?v"
        "map_option Str (css d) \<noteq> Some ?v"
    | (nophoto) "metadata name = Some d"
        "photo d = None \<or> photo d = Some ph \<and> files h (path_join h (photos_dir h root) ph) = None"
    by auto
  then have "fst (provideHover_lookup h now1 now2 doc name root s) \<in> {Inr None, Inl TypeError}"
  proof (cases)
    case absent
    then have "metadata_get metadata name \<in> {ElUndefined, ElInherited}"
      by (simp add: metadata_get_def)
    then show ?thesis
      using a provideHover_check_fst_none [of now2 doc name s1 ElInherited h "photos_dir h root"]
      by (auto simp: provideHover_lookup_alt)
  next
    case mismatch
    have e: "metadata_get metadata name = ElOwn d" using mismatch by (simp add: metadata_get_def)
    have "\<not> hasMatchingValue (ElOwn d) ?v"
      using mismatch by (cases "xpath d"; cases "css d") (auto simp: hasMatchingValue_def)
    then show ?thesis
      using a e provideHover_check_fst_none [of now2 doc name s1 "ElOwn d" h "photos_dir h root"]
      by (auto simp: provideHover_lookup_alt)
  next
    case nophoto
    have e: "metadata_get metadata name = ElOwn d" using nophoto by (simp add: metadata_get_def)
    have "fst (provideHover_show h (photos_dir h root) (ElOwn d) s2) \<in> {Inr None, Inl TypeError}"
      for s2
      using nophoto provideHover_show_fst_none [of "ElOwn d" h "photos_dir h root" s2]
      by (auto simp: existsSync_def)
    then have "fst (provideHover_check h now2 doc name (photos_dir h root) (ElOwn d) s1)
        \<in> {Inr None, Inl TypeError}"
      by (auto simp: provideHover_check_def split: prod.splits)
    then show ?thesis using a e by (auto simp: provideHover_lookup_alt)
  qed
  then show "fst (provideHover h now1 now2 doc position s) = None"
    using a by (auto simp: provideHover_fst provideHover_try_def)
qed

theorem provideHover_none_witness:
  "fst (provideHover (no_files_host\<lparr>workspaceFolder := None\<rparr>) 0 0 button_document (0, 1)
         new_provider) = None \<and>
   fst (provideHover no_files_host 0 0 button_document (0, 1) new_provider) = None \<and>
   fst (provideHover (button_host Map.empty True) 0 0 button_document (0, 1) new_provider) = None \<and>
   fst (provideHover (button_host [''BTN'' \<mapsto> button_descriptor\<lparr>xpath := Some ''//a''\<rparr>] True)
         0 0 button_document (0, 1) new_provider) = None \<and>
   fst (provideHover (button_host [''BTN'' \<mapsto> button_descriptor] False) 0 0 button_document (0, 1)
         new_provider) = None"
proof -
  let ?h1 = "no_files_host\<lparr>workspaceFolder := None\<rparr>"
  let ?h3 = "button_host Map.empty True"
  let ?d4 = "button_descriptor\<lparr>xpath := Some ''//a''\<rparr>"
  let ?t4 = "[''BTN'' \<mapsto> ?d4]"
  let ?h4 = "button_host ?t4 True"
  let ?t5 = "[''BTN'' \<mapsto> button_descriptor]"
  let ?h5 = "button_host ?t5 False"
  let ?mp = "''/w/.photos/element_selectors.json''"
  have lm: "loadMetadata (button_host table png) 0 (metadata_path (button_host table png) ''/w'')
        new_provider =
      (Inr (Some table), snd (loadMetadata (button_host table png) 0 ?mp new_provider))"
    for table png
    using button_host_loads [of table png] button_host_paths [of table png]
    by (simp add: prod_eq_iff)
  have 1: "fst (provideHover ?h1 0 0 button_document (0, 1) new_provider) = None"
    using provideHover_none [of ?h1 0 0 button_document "(0, 1)" new_provider] by simp
  have 2: "fst (provideHover no_files_host 0 0 button_document (0, 1) new_provider) = None"
    using provideHover_none [of no_files_host 0 0 button_document "(0, 1)" new_provider "''/w''"]
    by (simp add: no_files_host_def)
  have 3: "fst (provideHover ?h3 0 0 button_document (0, 1) new_provider) = None"
    using provideHover_none [of ?h3 0 0 button_document "(0, 1)" new_provider "''/w''" "''BTN''"
        Map.empty "snd (loadMetadata ?h3 0 ?mp new_provider)"]
      button_host_paths [of Map.empty True] button_document_cursor lm [of Map.empty True]
    by simp
  have 4: "fst (provideHover ?h4 0 0 button_document (0, 1) new_provider) = None"
    using provideHover_none [of ?h4 0 0 button_document "(0, 1)" new_provider "''/w''" "''BTN''"
        ?t4 "snd (loadMetadata ?h4 0 ?mp new_provider)" ?d4 "''btn.png''"]
      button_host_paths [of ?t4 True] button_document_cursor lm [of ?t4 True]
      button_document_value [of ?h4 ?mp]
    by (simp add: button_descriptor_def)
  have 5: "fst (provideHover ?h5 0 0 button_document (0, 1) new_provider) = None"
    using provideHover_none [of ?h5 0 0 button_document "(0, 1)" new_provider "''/w''" "''BTN''"
        ?t5 "snd (loadMetadata ?h5 0 ?mp new_provider)" button_descriptor "''btn.png''"]
      button_host_paths [of ?t5 False] button_document_cursor lm [of ?t5 False]
    by (simp add: button_descriptor_def)
  show ?thesis using 1 2 3 4 5 by simp
qed

text \<open>
  C5 (as stated it fails: an earlier line that assigns \<^verbatim>\<open>BTN\<close> another value, or a table
  or an index cached within the last five seconds, decides instead of the file and the
  line the claim names). \<^verbatim>\<open>provideHover\<close> returns a hover made of exactly the image, the
  tag line with \<^verbatim>\<open>button\<close> and the xpath block with \<^verbatim>\<open>//button[1]\<close>, no text line and no
  css block, under these conditions:

  \<^item> there is a workspace folder, its metadata file exists, and \<^verbatim>\<open>btn.png\<close> exists in its
    \<^verbatim>\<open>.photos\<close> directory;
  \<^item> the table in force maps \<^verbatim>\<open>BTN\<close> to the descriptor with tag \<^verbatim>\<open>button\<close>, xpath
    \<^verbatim>\<open>//button[1]\<close>, photo \<^verbatim>\<open>btn.png\<close> and neither text nor css; the table in force is the
    cached one if it is fresh for the metadata file, and what the file parses to
    otherwise;
  \<^item> the document is not a Robot Framework one, and the cursor is on a line of it at the
    word \<^verbatim>\<open>BTN\<close>;
  \<^item> the index in force gives \<^verbatim>\<open>//button[1]\<close> for \<^verbatim>\<open>BTN\<close>: if the cached index is fresh
    for the document, it holds that value under \<^verbatim>\<open>BTN\<close>; otherwise the document has a
    line on which \<^verbatim>\<open>BTN = "//button[1]"\<close> stands after text that has no equals sign and
    does not end in an identifier character (any text may follow), and every line
    before it that assigns \<^verbatim>\<open>BTN\<close> gives that same value.
\<close>

theorem provideHover_button:
  assumes ws: "workspaceFolder h = Some root"
    and mf: "files h (metadata_path h root) \<noteq> None"
    and table: "if metadata_fresh now1 (metadata_path h root) s
                then metadataCache s = Some metadata
                else (\<exists>raw. files h (metadata_path h root) = Some (Content raw) \<and>
                        json_parse h raw = Some metadata)"
    and btn: "metadata ''BTN'' = Some button_descriptor"
    and png: "files h (path_join h (photos_dir h root) ''btn.png'') \<noteq> None"
    and lang: "languageId doc \<noteq> ''robotframework''"
    and cursor: "fst position < length (doc_lines doc)" "wordAt doc position = Some ''BTN''"
    and index: "if assignments_fresh now2 doc s
                then variableAssignmentCache s ''BTN'' = Some ''//button[1]''
                else doc_lines doc = before @ (pre @ button_line @ post) # rest \<and>
                     CHR ''='' \<notin> set pre \<and> (pre = [] \<or> \<not> in_class IdRest (last pre)) \<and>
                     (\<forall>l \<in> set before. assigns False ''BTN'' l \<longrightarrow>
                        extractVariableValue l ''BTN'' = Some ''//button[1]'')"
  shows "fst (provideHover h now1 now2 doc position s) =
           Some [ImagePart (uri_file h (path_join h (photos_dir h root) ''btn.png'')),
                 TagLine (Some ''button''), XPathBlock ''//button[1]'']"
proof -
  let ?mp = "metadata_path h root"
  obtain r s1 where lm: "loadMetadata h now1 ?mp s = (r, s1)"
    by (cases "loadMetadata h now1 ?mp s")
  have r: "r = Inr (Some metadata)"
  proof (cases "metadata_fresh now1 ?mp s")
    case True
    then show ?thesis using table lm by (simp add: loadMetadata_cached)
  next
    case False
    then obtain raw where f: "files h ?mp = Some (Content raw)"
      and j: "json_parse h raw = Some metadata"
      using table by auto
    show ?thesis using loadMetadata_loads [OF False f j] lm by simp
  qed
  have s1: "s1 = snd (loadMetadata h now1 ?mp s)" using lm by simp
  have fr: "assignments_fresh now2 doc s1 = assignments_fresh now2 doc s"
    unfolding s1 by (rule assignments_fresh_loadMetadata)
  have vc: "variableAssignmentCache s1 = variableAssignmentCache s"
    unfolding s1 by (rule loadMetadata_keeps_cache)
  have np: "''BTN'' \<notin> set object_prototype_props"
    by (simp add: object_prototype_props_def)
  have "fst (buildVariableAssignmentCache now2 doc s1) ''BTN'' = Some ''//button[1]''"
  proof (cases "assignments_fresh now2 doc s")
    case True
    then show ?thesis using index fr vc by (simp add: build_index)
  next
    case False
    then have lines: "doc_lines doc = before @ (pre @ button_line @ post) # rest"
      and pre: "CHR ''='' \<notin> set pre" "pre = [] \<or> \<not> in_class IdRest (last pre)"
      and first: "\<forall>l \<in> set before. assigns False ''BTN'' l \<longrightarrow>
                    extractVariableValue l ''BTN'' = Some ''//button[1]''"
      using index by simp_all
    note a = button_line_assigns [OF pre, of post]
    from find_first_value [of before "assigns False ''BTN''" "\<lambda>l. extractVariableValue l ''BTN''"
        "Some ''//button[1]''" "pre @ button_line @ post" rest] first a
    obtain l where "find (assigns False ''BTN'') (doc_lines doc) = Some l"
      "extractVariableValue l ''BTN'' = Some ''//button[1]''"
      unfolding lines by blast
    then show ?thesis
      using index_of_first_occurrence [OF np, of doc] lang False fr
      by (simp add: build_index extractor_def)
  qed
  then have v: "fst (findVariableAssignmentEfficient now2 doc ''BTN'' s1) = Str ''//button[1]''"
    by (simp add: findVariableAssignmentEfficient_fst js_get_def or_null_def)
  have g: "getVariableAtPosition doc position = Inr (Some ''BTN'')"
    using cursor lang BTN_word by (simp add: getVariableAtPosition_def lineAt_def)
  have e: "metadata_get metadata ''BTN'' = ElOwn button_descriptor"
    using btn by (simp add: metadata_get_def)
  have m: "hasMatchingValue (ElOwn button_descriptor) (Str ''//button[1]'')"
    by (simp add: hasMatchingValue_def button_descriptor_def)
  have sh: "fst (provideHover_show h (photos_dir h root) (ElOwn button_descriptor) s2) =
      Inr (Some [ImagePart (uri_file h (path_join h (photos_dir h root) ''btn.png'')),
                 TagLine (Some ''button''), XPathBlock ''//button[1]''])" for s2
    using png
    by (auto simp: provideHover_show_def existsSync_def markdown_def button_descriptor_def Let_def)
  have "fst (provideHover_check h now2 doc ''BTN'' (photos_dir h root) (ElOwn button_descriptor) s1) =
      Inr (Some [ImagePart (uri_file h (path_join h (photos_dir h root) ''btn.png'')),
                 TagLine (Some ''button''), XPathBlock ''//button[1]''])"
    using v m sh by (auto simp: provideHover_check_def split: prod.splits)
  then have "fst (provideHover_lookup h now1 now2 doc ''BTN'' root s) =
      Inr (Some [ImagePart (uri_file h (path_join h (photos_dir h root) ''btn.png'')),
                 TagLine (Some ''button''), XPathBlock ''//button[1]''])"
    using lm r e mf by (simp add: provideHover_lookup_alt existsSync_def)
  then show ?thesis
    using g ws by (simp add: provideHover_fst provideHover_try_def)
qed

theorem provideHover_button_witness:
  "fst (provideHover (button_host [''BTN'' \<mapsto> button_descriptor] True) 0 0 button_document (0, 1)
         new_provider) =
     Some [ImagePart ''file:///w/.photos/btn.png'', TagLine (Some ''button''),
           XPathBlock ''//button[1]''] \<and>
   fst (provideHover (button_host [''BTN'' \<mapsto> button_descriptor] True) 0 0 script_document (2, 7)
         new_provider) =
     Some [ImagePart ''file:///w/.photos/btn.png'', TagLine (Some ''button''),
           XPathBlock ''//button[1]''] \<and>
   fst (provideHover (button_host [''BTN'' \<mapsto> button_descriptor] True) 100 100 button_document
         (0, 1) (hovered_at 0)) =
     Some [ImagePart ''file:///w/.photos/btn.png'', TagLine (Some ''button''),
           XPathBlock ''//button[1]'']"
proof -
  let ?t = "[''BTN'' \<mapsto> button_descriptor]"
  let ?h = "button_host ?t True"
  note p = button_host_paths [of ?t True]
  have u: "uri_file ?h ''/w/.photos/btn.png'' = ''file:///w/.photos/btn.png''"
    by (simp add: button_host_def)
  have n: "\<not> assigns False ''BTN'' ''// page''"
    by (simp add: assigns_def name_pattern_def) code_simp
  have c: "\<not> in_class IdRest (last ''const '')" by code_simp
  have 1: "fst (provideHover ?h 0 0 button_document (0, 1) new_provider) =
      Some [ImagePart ''file:///w/.photos/btn.png'', TagLine (Some ''button''),
            XPathBlock ''//button[1]'']"
    using provideHover_button [of ?h "''/w''" 0 new_provider ?t button_document "(0, 1)" 0
        "[]" "[]" "[]" "[]"] p u
    by (simp add: button_document_def metadata_fresh_def assignments_fresh_def new_provider_def)
  have 2: "fst (provideHover ?h 0 0 script_document (2, 7) new_provider) =
      Some [ImagePart ''file:///w/.photos/btn.png'', TagLine (Some ''button''),
            XPathBlock ''//button[1]'']"
    using provideHover_button [of ?h "''/w''" 0 new_provider ?t script_document "(2, 7)" 0
        "[''// page'']" "''const ''" "'';''" "[''click(BTN)'']"] p u n c
    by (simp add: script_document_def metadata_fresh_def assignments_fresh_def new_provider_def)
  have 3: "fst (provideHover ?h 100 100 button_document (0, 1) (hovered_at 0)) =
      Some [ImagePart ''file:///w/.photos/btn.png'', TagLine (Some ''button''),
            XPathBlock ''//button[1]'']"
    using provideHover_button [of ?h "''/w''" 100 "hovered_at 0" ?t button_document "(0, 1)" 100
        "[]" "[]" "[]" "[]"] p u
    by (simp add: button_document_def metadata_fresh_def assignments_fresh_def hovered_at_def
        new_provider_def)
  show ?thesis using 1 2 3 by simp
qed

text \<open>
  The claim as stated fails here, twice; in both cases the metadata file parses to a table
  that maps \<^verbatim>\<open>BTN\<close> to the descriptor, \<^verbatim>\<open>btn.png\<close> exists, the document contains the
  line \<^verbatim>\<open>BTN = "//button[1]"\<close> and the cursor is on \<^verbatim>\<open>BTN\<close> there. In the first document
  the line before it is \<^verbatim>\<open>BTN = "//old"\<close>: the index holds \<^verbatim>\<open>//old\<close>, which is not the
  descriptor's xpath, and there is no hover. In the second case the provider holds an
  empty table cached 100 ms earlier for the metadata file: the file is not read, the table
  has no \<^verbatim>\<open>BTN\<close>, and there is no hover.
\<close>

theorem provideHover_button_counterexample:
  "json_parse (button_host [''BTN'' \<mapsto> button_descriptor] True) ''{..}'' =
     Some [''BTN'' \<mapsto> button_descriptor] \<and>
   files (button_host [''BTN'' \<mapsto> button_descriptor] True) ''/w/.photos/element_selectors.json'' =
     Some (Content ''{..}'') \<and>
   files (button_host [''BTN'' \<mapsto> button_descriptor] True) ''/w/.photos/btn.png'' =
     Some (Content ''png'') \<and>
   doc_lines shadowed_document = [''BTN = '' @ [dquote] @ ''//old'' @ [dquote], button_line] \<and>
   getVariableAtPosition shadowed_document (1, 1) = Inr (Some ''BTN'') \<and>
   fst (provideHover (button_host [''BTN'' \<mapsto> button_descriptor] True) 0 0 shadowed_document (1, 1)
         new_provider) = None \<and>
   doc_lines button_document = [button_line] \<and>
   getVariableAtPosition button_document (0, 1) = Inr (Some ''BTN'') \<and>
   fst (provideHover (button_host [''BTN'' \<mapsto> button_descriptor] True) 100 100 button_document
         (0, 1) (cached_at 0)) = None"
proof -
  have "getVariableAtPosition shadowed_document (1, 1) = Inr (Some ''BTN'')"
    and "fst (provideHover (button_host [''BTN'' \<mapsto> button_descriptor] True) 0 0
           shadowed_document (1, 1) new_provider) = None"
    and "fst (provideHover (button_host [''BTN'' \<mapsto> button_descriptor] True) 100 100
           button_document (0, 1) (cached_at 0)) = None"
    by code_simp+
  then show ?thesis
    using button_host_paths [of "[''BTN'' \<mapsto> button_descriptor]" True] button_document_cursor
    by (simp add: shadowed_document_def button_document_def)
qed

text \<open>
  C8. In a Robot Framework document, for a cursor on a line of the document,
  \<^verbatim>\<open>getVariableAtPosition\<close> returns without raising, its scan of the line ends, and the
  result is this. If it is a name, then \<^verbatim>\<open>${name}\<close> occurs on the line with a span
  (braces included, from the offset of the dollar sign to the offset just after the
  closing brace) that contains the cursor offset, and no occurrence of any \<^verbatim>\<open>${...}\<close>
  whose span contains the cursor offset starts further left. If it is none, then no
  occurrence on the line has a span that contains the cursor offset.
\<close>

theorem getVariableAtPosition_robot:
  assumes "languageId doc = ''robotframework''" and "fst position < length (doc_lines doc)"
  shows "\<exists>r. getVariableAtPosition doc position = Inr r \<and>
           exec_loop robotVarRegex (doc_lines doc ! fst position) 0 \<noteq> None \<and>
           (\<forall>n. r = Some n \<longrightarrow>
              (\<exists>i. occurs_at (doc_lines doc ! fst position) i n \<and> covers i n (snd position) \<and>
                 (\<forall>i' n'. occurs_at (doc_lines doc ! fst position) i' n' \<and>
                     covers i' n' (snd position) \<longrightarrow> i \<le> i'))) \<and>
           (r = None \<longrightarrow>
              (\<forall>i n. occurs_at (doc_lines doc ! fst position) i n \<longrightarrow>
                 \<not> covers i n (snd position)))"
proof -
  let ?line = "doc_lines doc ! fst position"
  from robot_scan [of 0 ?line "snd position"] obtain ms where
    ms: "exec_loop robotVarRegex ?line 0 = Some ms"
    and a: "answers ?line (snd position) 0 (first_covering ?line (snd position) ms)"
    by auto
  have g: "getVariableAtPosition doc position = Inr (first_covering ?line (snd position) ms)"
    using assms ms by (simp add: getVariableAtPosition_def lineAt_def exec_all_def)
  show ?thesis
    using g ms a by (cases "first_covering ?line (snd position) ms") (auto simp: answers_def)
qed

theorem getVariableAtPosition_robot_witness:
  "languageId robot_document = ''robotframework'' \<and>
   fst (0::nat, 4::nat) < length (doc_lines robot_document) \<and>
   getVariableAtPosition robot_document (0, 4) = Inr (Some ''A'') \<and>
   (\<exists>i. occurs_at (doc_lines robot_document ! 0) i ''A'' \<and> covers i ''A'' 4 \<and>
      (\<forall>i' n'. occurs_at (doc_lines robot_document ! 0) i' n' \<and> covers i' n' 4 \<longrightarrow> i \<le> i')) \<and>
   getVariableAtPosition robot_document (0, 10) = Inr None \<and>
   \<not> covers 0 ''A'' 10 \<and> \<not> covers 4 ''Bc'' 10"
proof -
  have l: "languageId robot_document = ''robotframework''"
    by (simp add: robot_document_def)
  have p: "fst (0::nat, 4::nat) < length (doc_lines robot_document)"
    by (simp add: robot_document_def)
  note v = robot_document_values
  from getVariableAtPosition_robot [OF l p] v
  have "\<exists>i. occurs_at (doc_lines robot_document ! 0) i ''A'' \<and> covers i ''A'' 4 \<and>
      (\<forall>i' n'. occurs_at (doc_lines robot_document ! 0) i' n' \<and> covers i' n' 4 \<longrightarrow> i \<le> i')"
    by simp
  then show ?thesis using l p v by (simp add: covers_def)
qed

text \<open>
  C3 (as stated it fails: a line can contain \<^verbatim>\<open>x = "abc"\<close> after an earlier assignment
  that wins). For a name that the word pattern accepts and that has no dollar sign, and
  for every line:

  \<^item> \<^verbatim>\<open>extractVariableValue\<close> takes the patterns in the order double quote, single quote,
    back quote, each with its leftmost match on the line, and returns the capture of the
    first pattern whose capture is not empty; it returns none when every pattern has no
    match or an empty capture.
  \<^item> The delimiter that opens a literal governs its capture: what a pattern captures
    stands on the line between two of its own quote characters, after the name,
    optional whitespace, an equals sign and optional whitespace, and does not contain
    that quote character. On the line \<^verbatim>\<open>x = 'a"b'\<close> the result for \<^verbatim>\<open>x\<close> is \<^verbatim>\<open>a"b\<close>.
  \<^item> If the line reads: some text without an equals sign, the name, optional whitespace,
    \<^verbatim>\<open>=\<close>, optional whitespace, a non-empty literal in one of the three quoting styles,
    any text; then the pattern of that style captures the literal's content. The result
    is that content when the literal is double-quoted; when it is single-quoted and the
    double-quote pattern captures nothing non-empty on the line; and when it is
    back-quoted and neither of the other two patterns captures anything non-empty.
\<close>

theorem extractVariableValue_priority:
  assumes id: "regex_test wordRegex name" and nd: "CHR ''$'' \<notin> set name"
  shows
   "(truthy_capture (capture (doubleQuoteRegex name) line) \<longrightarrow>
       extractVariableValue line name = capture (doubleQuoteRegex name) line) \<and>
    (\<not> truthy_capture (capture (doubleQuoteRegex name) line) \<and>
     truthy_capture (capture (singleQuoteRegex name) line) \<longrightarrow>
       extractVariableValue line name = capture (singleQuoteRegex name) line) \<and>
    (\<not> truthy_capture (capture (doubleQuoteRegex name) line) \<and>
     \<not> truthy_capture (capture (singleQuoteRegex name) line) \<and>
     truthy_capture (capture (backQuoteRegex name) line) \<longrightarrow>
       extractVariableValue line name = capture (backQuoteRegex name) line) \<and>
    (\<not> truthy_capture (capture (doubleQuoteRegex name) line) \<and>
     \<not> truthy_capture (capture (singleQuoteRegex name) line) \<and>
     \<not> truthy_capture (capture (backQuoteRegex name) line) \<longrightarrow>
       extractVariableValue line name = None) \<and>
    (is_quote r \<and> capture (quoteRegex r name) line = Some u \<longrightarrow>
       r \<notin> set u \<and>
       (\<exists>pre wa wb post. line = pre @ name @ wa @ ''='' @ wb @ [r] @ u @ [r] @ post \<and>
          spaces wa \<and> spaces wb)) \<and>
    extractVariableValue (''x = '' @ [squote] @ ''a'' @ [dquote] @ ''b'' @ [squote]) ''x'' =
      Some (''a'' @ [dquote] @ ''b'') \<and>
    (line = pre @ name @ wa @ ''='' @ wb @ [q] @ v @ [q] @ post \<and> CHR ''='' \<notin> set pre \<and>
     spaces wa \<and> spaces wb \<and> is_quote q \<and> q \<notin> set v \<and> v \<noteq> [] \<longrightarrow>
       capture (quoteRegex q name) line = Some v \<and>
       (q = dquote \<longrightarrow> extractVariableValue line name = Some v) \<and>
       (q = squote \<and> \<not> truthy_capture (capture (doubleQuoteRegex name) line) \<longrightarrow>
          extractVariableValue line name = Some v) \<and>
       (q = bquote \<and> \<not> truthy_capture (capture (doubleQuoteRegex name) line) \<and>
        \<not> truthy_capture (capture (singleQuoteRegex name) line) \<longrightarrow>
          extractVariableValue line name = Some v))"
proof -
  note p = identifier_plain [OF id]
  have prio: "extractVariableValue line name =
      (if truthy_capture (capture (doubleQuoteRegex name) line)
       then capture (doubleQuoteRegex name) line
       else if truthy_capture (capture (singleQuoteRegex name) line)
       then capture (singleQuoteRegex name) line
       else if truthy_capture (capture (backQuoteRegex name) line)
       then capture (backQuoteRegex name) line
       else None)"
    by (simp add: extractVariableValue_def Let_def)
  have delim: "r \<notin> set u \<and>
       (\<exists>pre wa wb post. line = pre @ name @ wa @ ''='' @ wb @ [r] @ u @ [r] @ post \<and>
          spaces wa \<and> spaces wb)"
    if "is_quote r" "capture (quoteRegex r name) line = Some u"
    using capture_sound [OF nd that] by blast
  have ex: "extractVariableValue (''x = '' @ [squote] @ ''a'' @ [dquote] @ ''b'' @ [squote]) ''x'' =
      Some (''a'' @ [dquote] @ ''b'')"
    by code_simp
  have first: "capture (quoteRegex q name) line = Some v"
    if "line = pre @ name @ wa @ ''='' @ wb @ [q] @ v @ [q] @ post" "CHR ''='' \<notin> set pre"
      "spaces wa" "spaces wb" "is_quote q" "q \<notin> set v"
    using capture_first [of name q pre wa wb v post] nd p that by simp
  show ?thesis
    using prio delim ex first
    by (auto simp: doubleQuoteRegex_def singleQuoteRegex_def backQuoteRegex_def)
qed

theorem extractVariableValue_priority_witness:
  "regex_test wordRegex ''x'' \<and> CHR ''$'' \<notin> set ''x'' \<and>
   extractVariableValue (''const x = '' @ [dquote] @ ''abc'' @ [dquote] @ '';'') ''x'' = Some ''abc'' \<and>
   extractVariableValue (''x = '' @ [squote] @ ''abc'' @ [squote]) ''x'' = Some ''abc'' \<and>
   extractVariableValue (''x = '' @ [bquote] @ ''abc'' @ [bquote]) ''x'' = Some ''abc'' \<and>
   extractVariableValue
     (''x = '' @ [squote] @ ''p'' @ [squote] @ ''; x = '' @ [dquote] @ ''d'' @ [dquote]) ''x'' =
     Some ''d'' \<and>
   extractVariableValue ''x = 1'' ''x'' = None"
proof -
  have id: "regex_test wordRegex ''x''" by code_simp
  have nd: "CHR ''$'' \<notin> set ''x''" by simp
  have sp: "spaces '' ''" by (simp add: spaces_def space_chars_def)
  have qs: "is_quote dquote" "is_quote squote" "is_quote bquote" by (simp_all add: is_quote_def)
  have nq: "dquote \<notin> set ''abc''" "squote \<notin> set ''abc''" "bquote \<notin> set ''abc''"
    by (simp_all add: dquote_def squote_def bquote_def)
  have ne: "squote \<noteq> dquote" "bquote \<noteq> dquote" "bquote \<noteq> squote"
    by (simp_all add: dquote_def squote_def bquote_def)
  let ?L2 = "''x = '' @ [squote] @ ''abc'' @ [squote]"
  let ?L3 = "''x = '' @ [bquote] @ ''abc'' @ [bquote]"
  let ?L4 = "''x = '' @ [squote] @ ''p'' @ [squote] @ ''; x = '' @ [dquote] @ ''d'' @ [dquote]"
  have c2: "capture (doubleQuoteRegex ''x'') ?L2 = None" by code_simp
  have c3: "capture (doubleQuoteRegex ''x'') ?L3 = None" "capture (singleQuoteRegex ''x'') ?L3 = None"
    by code_simp+
  have c4: "capture (doubleQuoteRegex ''x'') ?L4 = Some ''d''" by code_simp
  have c5: "capture (doubleQuoteRegex ''x'') ''x = 1'' = None"
    "capture (singleQuoteRegex ''x'') ''x = 1'' = None"
    "capture (backQuoteRegex ''x'') ''x = 1'' = None"
    by code_simp+
  have 1: "extractVariableValue (''const x = '' @ [dquote] @ ''abc'' @ [dquote] @ '';'') ''x'' =
      Some ''abc''"
    using extractVariableValue_priority [OF id nd,
        where line = "''const x = '' @ [dquote] @ ''abc'' @ [dquote] @ '';''"
        and pre = "''const ''" and wa = "'' ''" and wb = "'' ''" and q = dquote and v = "''abc''"
        and post = "'';''"] sp qs nq
    by simp
  have 2: "extractVariableValue ?L2 ''x'' = Some ''abc''"
    using extractVariableValue_priority [OF id nd, where line = ?L2
        and pre = "[]" and wa = "'' ''" and wb = "'' ''" and q = squote and v = "''abc''"
        and post = "[]"] sp qs nq ne c2
    by simp
  have 3: "extractVariableValue ?L3 ''x'' = Some ''abc''"
    using extractVariableValue_priority [OF id nd, where line = ?L3
        and pre = "[]" and wa = "'' ''" and wb = "'' ''" and q = bquote and v = "''abc''"
        and post = "[]"] sp qs nq ne c3
    by simp
  have 4: "extractVariableValue ?L4 ''x'' = Some ''d''"
    using extractVariableValue_priority [OF id nd, where line = ?L4] c4 by simp
  have 5: "extractVariableValue ''x = 1'' ''x'' = None"
    using extractVariableValue_priority [OF id nd, where line = "''x = 1''"] c5 by simp
  show ?thesis using id nd 1 2 3 4 5 by simp
qed

text \<open>
  The claim as stated fails here. The first line contains \<^verbatim>\<open>x = "abc"\<close>, and the result
  is \<^verbatim>\<open>zzz\<close>, from the assignment before it. The second line contains \<^verbatim>\<open>x = 'abc'\<close>,
  and the result is \<^verbatim>\<open>d\<close>, from the double-quoted assignment after it.
\<close>

theorem extractVariableValue_earlier_assignment_counterexample:
  "extractVariableValue
     (''x = '' @ [dquote] @ ''zzz'' @ [dquote] @ ''; x = '' @ [dquote] @ ''abc'' @ [dquote]) ''x'' =
     Some ''zzz'' \<and>
   extractVariableValue
     (''x = '' @ [squote] @ ''abc'' @ [squote] @ ''; x = '' @ [dquote] @ ''d'' @ [dquote]) ''x'' =
     Some ''d''"
  by code_simp

end
